theory Spec2Isabelle
  imports Main
begin

section \<open>The remote store\<close>

text \<open>
  \<^verbatim>\<open>FirebaseHelper\<close> talks to a hierarchical keyed store. Every location the code touches
  is a collection of children under a fixed prefix, so the store is modelled as a function
  from locations to their children, kept in ascending key order (the order in which the
  store hands children to \<^verbatim>\<open>forEach\<close>, \<^verbatim>\<open>child_added\<close> and \<^verbatim>\<open>val()\<close> under \<^verbatim>\<open>orderByKey\<close>).
  Keys (post ids, user ids, hashtags) are strings ordered by the store; here they are any
  linear order \<open>'k\<close>. Values are the JavaScript values the code reads and writes: the
  boolean \<^verbatim>\<open>true\<close>, a string holding an id, or an object (a post or comment body, \<open>'b\<close>).
  A missing child is \<^verbatim>\<open>null\<close>.
\<close>

datatype ('k, 'b) jval = JTrue | JStr 'k | JObj 'b

datatype 'k loc =
    Posts               \<comment> \<open>\<^verbatim>\<open>/posts\<close>: the post records, also the global feed\<close>
  | Feed 'k             \<comment> \<open>\<^verbatim>\<open>/feed/${uid}\<close>: the home feed of a user\<close>
  | PeoplePosts 'k      \<comment> \<open>\<^verbatim>\<open>/people/${uid}/posts\<close>\<close>
  | Following 'k        \<comment> \<open>\<^verbatim>\<open>/people/${uid}/following\<close>\<close>
  | Followers 'k        \<comment> \<open>\<^verbatim>\<open>/followers/${uid}\<close>\<close>
  | Hashtags 'k         \<comment> \<open>\<^verbatim>\<open>/hashtags/${hashtag}\<close>\<close>
  | Comments 'k         \<comment> \<open>\<^verbatim>\<open>/comments/${postId}\<close>\<close>
  | Likes 'k            \<comment> \<open>\<^verbatim>\<open>/likes/${postId}\<close>\<close>

type_synonym ('k, 'b) children = "('k \<times> ('k, 'b) jval) list"

type_synonym ('k, 'b) store = "'k loc \<Rightarrow> ('k, 'b) children"

text \<open>A path of a multi-path update names one child of a location or the whole location.\<close>

datatype 'k path = Child "'k loc" 'k | Subtree "'k loc"

text \<open>The update object: path to value, \<open>None\<close> being \<^verbatim>\<open>null\<close> (delete).\<close>

type_synonym ('k, 'b) updates = "('k path \<times> ('k, 'b) jval option) list"

datatype completion = Resolved | Rejected

subsection \<open>Queries\<close>

definition endAt :: "'k::linorder \<Rightarrow> ('k \<times> 'v) list \<Rightarrow> ('k \<times> 'v) list" where
  "endAt e xs = filter (\<lambda>(k, v). k \<le> e) xs"

definition startAt :: "'k::linorder \<Rightarrow> ('k \<times> 'v) list \<Rightarrow> ('k \<times> 'v) list" where
  "startAt s xs = filter (\<lambda>(k, v). s \<le> k) xs"

definition limitToLast :: "nat \<Rightarrow> 'a list \<Rightarrow> 'a list" where
  "limitToLast n xs = drop (length xs - n) xs"

subsection \<open>Writes\<close>

fun set_child :: "'k::linorder \<Rightarrow> 'v \<Rightarrow> ('k \<times> 'v) list \<Rightarrow> ('k \<times> 'v) list" where
  "set_child k v [] = [(k, v)]"
| "set_child k v ((k', v') # xs) =
     (if k < k' then (k, v) # (k', v') # xs
      else if k = k' then (k, v) # xs
      else (k', v') # set_child k v xs)"

definition remove_child :: "'k \<Rightarrow> ('k \<times> 'v) list \<Rightarrow> ('k \<times> 'v) list" where
  "remove_child k xs = filter (\<lambda>(k', v). k' \<noteq> k) xs"

text \<open>
  One entry of an update object. Every update object built by the code modelled here sets
  or deletes single children and deletes whole locations; a value written over a whole
  location does not occur and is left without effect.
\<close>

fun apply_write :: "'k::linorder path \<times> ('k, 'b) jval option \<Rightarrow> ('k, 'b) store \<Rightarrow> ('k, 'b) store" where
  "apply_write (Child l k, Some v) db = db(l := set_child k v (db l))"
| "apply_write (Child l k, None) db = db(l := remove_child k (db l))"
| "apply_write (Subtree l, None) db = db(l := [])"
| "apply_write (Subtree l, Some v) db = db"

text \<open>
  \<^verbatim>\<open>database.ref().update(updates)\<close>: the store's security rules (not part of the client)
  decide for each path whether this client may write it. The write is atomic: it is applied
  as a whole and the returned promise resolves, or it is rejected as a whole.
\<close>

definition update ::
  "('k::linorder path \<Rightarrow> bool) \<Rightarrow> ('k, 'b) updates \<Rightarrow> ('k, 'b) store \<Rightarrow> completion \<times> ('k, 'b) store" where
  "update rules upd db =
     (if list_all (\<lambda>(p, v). rules p) upd then (Resolved, fold apply_write upd db)
      else (Rejected, db))"

subsection \<open>JavaScript objects used as ordered maps\<close>

text \<open>
  \<^verbatim>\<open>obj[k] = v\<close> overwrites the property in place when it exists and appends it otherwise;
  \<^verbatim>\<open>Object.keys\<close> lists the properties in that order (the keys here are ids and paths, not
  array indices). \<^verbatim>\<open>delete obj[k]\<close> removes the property.
\<close>

fun obj_set :: "'a \<Rightarrow> 'v \<Rightarrow> ('a \<times> 'v) list \<Rightarrow> ('a \<times> 'v) list" where
  "obj_set k v [] = [(k, v)]"
| "obj_set k v ((k', v') # xs) =
     (if k = k' then (k, v) # xs else (k', v') # obj_set k v xs)"

definition obj_delete :: "'a \<Rightarrow> ('a \<times> 'v) list \<Rightarrow> ('a \<times> 'v) list" where
  "obj_delete k xs = filter (\<lambda>(k', v). k' \<noteq> k) xs"

section \<open>FirebaseHelper: paginated feeds\<close>

text \<open>\<^verbatim>\<open>getPostData(postId)\<close>: the value at \<^verbatim>\<open>/posts/${postId}\<close>, \<open>None\<close> when absent.\<close>

definition getPostData :: "('k, 'b) store \<Rightarrow> 'k \<Rightarrow> ('k, 'b) jval option" where
  "getPostData db postId = map_of (db Posts) postId"

text \<open>
  \<^verbatim>\<open>deleteFromFeed(uri, postId)\<close>: \<^verbatim>\<open>ref(uri/postId).remove()\<close>. Its caller neither waits
  for the removal nor looks at its outcome; here a removal the rules accept is in the store
  before the next read, and one they reject never is.
\<close>

definition deleteFromFeed ::
  "('k::linorder path \<Rightarrow> bool) \<Rightarrow> 'k loc \<Rightarrow> 'k \<Rightarrow> ('k, 'b) store \<Rightarrow> completion \<times> ('k, 'b) store" where
  "deleteFromFeed rules uri postId db = update rules [(Child uri postId, None)] db"

text \<open>
  The result of \<^verbatim>\<open>_getPaginatedFeed\<close>. The \<^verbatim>\<open>nextPage\<close> closure is
  \<^verbatim>\<open>() => this._getPaginatedFeed(uri, pageSize, nextPageStartingId, fetchPostDetails)\<close>;
  it is represented by the one value it adds to the arguments of the call that built it,
  \<open>nextPageStartingId\<close>, and \<open>None\<close> is \<^verbatim>\<open>null\<close>.
\<close>

record ('k, 'b) page =
  entries :: "('k, 'b) children"
  nextPage :: "'k option"

text \<open>
  The \<^verbatim>\<open>results.forEach\<close> loop of \<^verbatim>\<open>_getPaginatedFeed\<close>: the state is \<open>entries\<close>, the
  completions collected in \<open>deleteOps\<close>, and the store, which \<^verbatim>\<open>deleteFromFeed\<close> writes.
\<close>

fun expand_results ::
  "('k::linorder path \<Rightarrow> bool) \<Rightarrow> 'k loc \<Rightarrow> ('k \<times> ('k, 'b) jval option) list \<Rightarrow>
   ('k, 'b) children \<times> completion list \<times> ('k, 'b) store \<Rightarrow>
   ('k, 'b) children \<times> completion list \<times> ('k, 'b) store" where
  "expand_results rules uri [] st = st"
| "expand_results rules uri ((key, Some val) # results) (ents, deleteOps, db) =
     expand_results rules uri results (obj_set key val ents, deleteOps, db)"
| "expand_results rules uri ((key, None) # results) (ents, deleteOps, db) =
     (let (c, db') = deleteFromFeed rules uri key db
      in expand_results rules uri results (obj_delete key ents, deleteOps @ [c], db'))"

text \<open>
  \<^verbatim>\<open>_getPaginatedFeed(uri, pageSize, earliestEntryId, fetchPostDetails)\<close>. The function calls
  itself after a repair, with nothing that bounds the number of calls, so it is a partial
  function: \<open>None\<close> is a call that never resolves. A result carries the store as the call
  left it.
\<close>

partial_function (option) getPaginatedFeed ::
  "('k::linorder path \<Rightarrow> bool) \<Rightarrow> ('k, 'b) store \<Rightarrow> 'k loc \<Rightarrow> nat \<Rightarrow> 'k option \<Rightarrow> bool \<Rightarrow>
   (('k, 'b) page \<times> ('k, 'b) store) option" where
  "getPaginatedFeed rules db uri pageSize earliestEntryId fetchPostDetails =
     (let ref = (case earliestEntryId of None \<Rightarrow> db uri | Some e \<Rightarrow> endAt e (db uri));
          data = limitToLast (pageSize + 1) ref;
          more = (length data > pageSize);
          ents = (if more then tl data else data);
          next = (if more then Some (fst (hd data)) else None);
          entryIds = map fst ents
      in if fetchPostDetails then
           (let results = map (\<lambda>postId. (postId, getPostData db postId)) entryIds;
                (ents', deleteOps, db') = expand_results rules uri results (ents, [], db)
            in if length deleteOps > 0
               then getPaginatedFeed rules db' uri pageSize earliestEntryId fetchPostDetails
               else Some (\<lparr>entries = ents', nextPage = next\<rparr>, db'))
         else Some (\<lparr>entries = ents, nextPage = next\<rparr>, db))"



text \<open>
  The entries of a feed at or below the bound of a request: what a page and its
  continuations can still return.
\<close>

definition remaining :: "('k::linorder, 'b) store \<Rightarrow> 'k loc \<Rightarrow> 'k option \<Rightarrow> ('k, 'b) children" where
  "remaining db uri earliest = (case earliest of None \<Rightarrow> db uri | Some e \<Rightarrow> endAt e (db uri))"

text \<open>The key just below the \<open>n\<close> newest of a list in ascending key order, if there is one.\<close>

definition next_cursor :: "nat \<Rightarrow> ('k \<times> 'v) list \<Rightarrow> 'k option" where
  "next_cursor n rem = (if n < length rem then Some (fst (rem ! (length rem - n - 1))) else None)"

section \<open>FirebaseHelper: the home feed\<close>

text \<open>
  \<^verbatim>\<open>x instanceof String\<close> holds for objects that have \<^verbatim>\<open>String.prototype\<close> on their
  prototype chain. A snapshot's \<^verbatim>\<open>val()\<close> is a primitive string, a primitive boolean or a
  plain object; for none of them it holds.
\<close>

definition instanceof_String :: "('k, 'b) jval \<Rightarrow> bool" where
  "instanceof_String v = False"

text \<open>
  The query both \<^verbatim>\<open>startHomeFeedLiveUpdaters\<close> and \<^verbatim>\<open>updateHomeFeeds\<close> build on the posts of
  a followed user from the stored cursor \<open>v\<close> (\<^verbatim>\<open>followingData.val()\<close>,
  \<^verbatim>\<open>following[followedUid]\<close>): its children, in key order.
\<close>

definition followedUserPostsRef ::
  "('k::linorder, 'b) store \<Rightarrow> 'k \<Rightarrow> ('k, 'b) jval \<Rightarrow> ('k, 'b) children" where
  "followedUserPostsRef db followedUid v =
     (if instanceof_String v
      then (case v of JStr s \<Rightarrow> startAt s (db (PeoplePosts followedUid))
                    | _ \<Rightarrow> db (PeoplePosts followedUid))
      else db (PeoplePosts followedUid))"

text \<open>
  The \<^verbatim>\<open>child_added\<close> callback \<^verbatim>\<open>startHomeFeedLiveUpdaters\<close> puts on the posts of a followed
  user; \<open>v\<close> is the cursor as the enclosing callback received it.
\<close>

definition onFollowedPostAdded ::
  "('k::linorder path \<Rightarrow> bool) \<Rightarrow> 'k \<Rightarrow> 'k \<Rightarrow> ('k, 'b) jval \<Rightarrow> 'k \<Rightarrow> ('k, 'b) store \<Rightarrow> ('k, 'b) store" where
  "onFollowedPostAdded rules me followedUid v postKey db =
     (if JStr postKey \<noteq> v then
        (let updates = obj_set (Child (Feed me) postKey) (Some JTrue) [];
             updates = obj_set (Child (Following me) followedUid) (Some (JStr postKey)) updates
         in snd (update rules updates db))
      else db)"

text \<open>
  \<^verbatim>\<open>startHomeFeedLiveUpdaters()\<close> up to the delivery of the children present when it is
  called: \<^verbatim>\<open>child_added\<close> fires once for each followed user, and the listener attached then
  fires once for each post in its query. Later posts reach \<open>onFollowedPostAdded\<close> the
  same way, one call each.
\<close>

definition startHomeFeedLiveUpdaters ::
  "('k::linorder path \<Rightarrow> bool) \<Rightarrow> 'k \<Rightarrow> ('k, 'b) store \<Rightarrow> ('k, 'b) store" where
  "startHomeFeedLiveUpdaters rules me db =
     fold (\<lambda>(followedUid, v) db.
             fold (onFollowedPostAdded rules me followedUid v)
                  (map fst (followedUserPostsRef db followedUid v)) db)
          (db (Following me)) db"

text \<open>The update object \<^verbatim>\<open>updateHomeFeeds\<close> builds for one followed user.\<close>

definition homeFeedUpdates ::
  "'k \<Rightarrow> 'k \<Rightarrow> ('k, 'b) jval \<Rightarrow> 'k list \<Rightarrow> ('k, 'b) updates" where
  "homeFeedUpdates me followedUid lastSyncedPostId postIds =
     fold (\<lambda>postId updates.
             if JStr postId \<noteq> lastSyncedPostId then
               obj_set (Child (Following me) followedUid) (Some (JStr postId))
                 (obj_set (Child (Feed me) postId) (Some JTrue) updates)
             else updates)
          postIds []"

text \<open>
  \<^verbatim>\<open>updateHomeFeeds()\<close>: the followed users are read once; for each, the posts of the query
  are read once and one write is made (none when the query is empty).
\<close>

definition updateHomeFeeds ::
  "('k::linorder path \<Rightarrow> bool) \<Rightarrow> 'k \<Rightarrow> ('k, 'b) store \<Rightarrow> ('k, 'b) store" where
  "updateHomeFeeds rules me db =
     fold (\<lambda>(followedUid, lastSyncedPostId) db.
             (let postData = followedUserPostsRef db followedUid lastSyncedPostId
              in if postData = [] then db
                 else snd (update rules
                        (homeFeedUpdates me followedUid lastSyncedPostId (map fst postData)) db)))
          (db (Following me)) db"

section \<open>FirebaseHelper: follow, unfollow\<close>

text \<open>
  \<^verbatim>\<open>toggleFollowUser(followedUserId, follow)\<close> by the signed-in user \<open>me\<close>: one read of the
  followed user's posts, one update object, one write.
\<close>

definition toggleFollowUser ::
  "('k::linorder path \<Rightarrow> bool) \<Rightarrow> 'k \<Rightarrow> 'k \<Rightarrow> bool \<Rightarrow> ('k, 'b) store \<Rightarrow> completion \<times> ('k, 'b) store" where
  "toggleFollowUser rules me followedUserId follow db =
     (let data = db (PeoplePosts followedUserId);
          (updateData, lastPostId) =
             fold (\<lambda>(key, _) (updateData, lastPostId).
                     (obj_set (Child (Feed me) key) (if follow then Some JTrue else None) updateData,
                      JStr key))
                  data ([], JTrue);
          updateData = obj_set (Child (Following me) followedUserId)
                         (if follow then Some lastPostId else None) updateData;
          updateData = obj_set (Child (Followers followedUserId) me)
                         (if follow then Some JTrue else None) updateData
      in update rules updateData db)"

section \<open>FirebaseHelper: deleting a post\<close>

text \<open>
  Cloud Storage holds the picture files. A reference is made from a \<^verbatim>\<open>gs://\<close> URL
  (\<^verbatim>\<open>refFromURL\<close>) or from a path (\<^verbatim>\<open>ref\<close>); \<^verbatim>\<open>delete()\<close> rejects when there is no object
  at the reference.
\<close>

datatype blob_ref = FromURL string | FromPath string

definition delete_blob :: "blob_ref \<Rightarrow> blob_ref set \<Rightarrow> completion \<times> blob_ref set" where
  "delete_blob r storage = (if r \<in> storage then (Resolved, storage - {r}) else (Rejected, storage))"

text \<open>\<^verbatim>\<open>Promise.all\<close> resolves when every promise resolves and rejects when one rejects.\<close>

definition promise_all :: "completion list \<Rightarrow> completion" where
  "promise_all ps = (if list_all (\<lambda>p. p = Resolved) ps then Resolved else Rejected)"

definition startsWith :: "string \<Rightarrow> string \<Rightarrow> bool" where
  "startsWith s p = (take (length p) s = p)"

text \<open>
  \<^verbatim>\<open>deletePost(postId, picStorageUri, thumbStorageUri)\<close>; \<open>None\<close> and the empty string are
  the \<open>picStorageUri\<close> that \<^verbatim>\<open>if (picStorageUri)\<close> takes for false. The state is the store and
  the picture files.
\<close>

definition deletePost ::
  "('k::linorder path \<Rightarrow> bool) \<Rightarrow> 'k \<Rightarrow> 'k \<Rightarrow> string option \<Rightarrow> string \<Rightarrow>
   ('k, 'b) store \<times> blob_ref set \<Rightarrow> completion \<times> ('k, 'b) store \<times> blob_ref set" where
  "deletePost rules me postId picStorageUri thumbStorageUri st =
     (let (db, storage) = st;
          updateObj = obj_set (Child (PeoplePosts me) postId) None [];
          updateObj = obj_set (Subtree (Comments postId)) None updateObj;
          updateObj = obj_set (Subtree (Likes postId)) None updateObj;
          updateObj = obj_set (Child Posts postId) None updateObj;
          updateObj = obj_set (Child (Feed me) postId) None updateObj;
          (deleteFromDatabase, db') = update rules updateObj db
      in case picStorageUri of
           None \<Rightarrow> (deleteFromDatabase, db', storage)
         | Some pic \<Rightarrow>
             if pic = [] then (deleteFromDatabase, db', storage)
             else
               (let (deletePicFromStorage, storage1) =
                      (if startsWith pic ''gs:/'' then delete_blob (FromURL pic) storage
                       else delete_blob (FromPath pic) storage);
                    (deleteThumbFromStorage, storage2) =
                      (if startsWith pic ''gs:/'' then delete_blob (FromURL thumbStorageUri) storage1
                       else delete_blob (FromPath thumbStorageUri) storage1)
                in (promise_all [deleteFromDatabase, deletePicFromStorage, deleteThumbFromStorage],
                    db', storage2)))"

text \<open>
  The update object of \<^verbatim>\<open>deletePost\<close>, and the reference it takes for a file: both files
  are resolved the way the prefix of \<open>picStorageUri\<close> selects.
\<close>

definition deletePost_updates :: "'k \<Rightarrow> 'k \<Rightarrow> ('k, 'b) updates" where
  "deletePost_updates me postId =
     [(Child (PeoplePosts me) postId, None),
      (Subtree (Comments postId), None),
      (Subtree (Likes postId), None),
      (Child Posts postId, None),
      (Child (Feed me) postId, None)]"

definition storage_ref :: "string \<Rightarrow> string \<Rightarrow> blob_ref" where
  "storage_ref picStorageUri uri =
     (if startsWith picStorageUri ''gs:/'' then FromURL uri else FromPath uri)"

section \<open>FirebaseHelper: live subscriptions\<close>

text \<open>
  \<^verbatim>\<open>_subscribeToFeed(uri, callback, latestEntryId, fetchPostDetails)\<close> attaches one
  \<^verbatim>\<open>child_added\<close> listener, recorded here by the arguments its callback closes over.
  \<open>None\<close> is an absent \<open>latestEntryId\<close> (\<^verbatim>\<open>null\<close>, \<^verbatim>\<open>undefined\<close>).
\<close>

record 'k subscription =
  sub_uri :: "'k loc"
  sub_latestEntryId :: "'k option"
  sub_fetchPostDetails :: bool

definition subscribeToFeed :: "'k loc \<Rightarrow> 'k option \<Rightarrow> bool \<Rightarrow> 'k subscription" where
  "subscribeToFeed uri latestEntryId fetchPostDetails =
     \<lparr>sub_uri = uri, sub_latestEntryId = latestEntryId, sub_fetchPostDetails = fetchPostDetails\<rparr>"

text \<open>The children the listener's query ranges over: \<^verbatim>\<open>child_added\<close> fires for these only.\<close>

definition feedRef :: "'k::linorder subscription \<Rightarrow> ('k \<times> 'v) list \<Rightarrow> ('k \<times> 'v) list" where
  "feedRef sub children =
     (case sub_latestEntryId sub of None \<Rightarrow> children | Some l \<Rightarrow> startAt l children)"

text \<open>
  The listener's callback on one child: the calls of \<open>callback\<close> it makes, as the list of
  their arguments (none or one). With \<open>fetchPostDetails\<close> the value handed over is the post
  record, \<open>None\<close> when the post is missing, and the call is made when that read resolves.
\<close>

definition on_child_added ::
  "'k subscription \<Rightarrow> ('k, 'b) store \<Rightarrow> 'k \<times> ('k, 'b) jval \<Rightarrow> ('k \<times> ('k, 'b) jval option) list" where
  "on_child_added sub db feedData =
     (if Some (fst feedData) \<noteq> sub_latestEntryId sub then
        (if \<not> sub_fetchPostDetails sub then [(fst feedData, Some (snd feedData))]
         else [(fst feedData, getPostData db (fst feedData))])
      else [])"

text \<open>
  What a subscription delivers: \<^verbatim>\<open>child_added\<close> fires once for every child the query holds
  when the listener is attached, in key order, and once for every child added later that
  the query ranges over. The lists below hold the calls of \<open>callback\<close> by the child that
  causes them.
\<close>

definition delivered_initially ::
  "'k::linorder subscription \<Rightarrow> ('k, 'b) store \<Rightarrow> ('k \<times> ('k, 'b) jval option) list" where
  "delivered_initially sub db = concat (map (on_child_added sub db) (feedRef sub (db (sub_uri sub))))"

definition delivered_on_insert ::
  "'k::linorder subscription \<Rightarrow> ('k, 'b) store \<Rightarrow> 'k \<times> ('k, 'b) jval \<Rightarrow> ('k \<times> ('k, 'b) jval option) list" where
  "delivered_on_insert sub db child = concat (map (on_child_added sub db) (feedRef sub [child]))"

section \<open>Feed: the displayed posts\<close>

text \<open>
  An element of the page: the post it renders and the classes \<^verbatim>\<open>fp-post-${id}\<close> it carries
  (kept by their ids), which \<^verbatim>\<open>addPosts\<close> and \<^verbatim>\<open>onPostDeleted\<close> select elements by.
\<close>

record ('k, 'b) element =
  el_classes :: "'k set"
  el_postId :: 'k
  el_data :: 'b

text \<open>
  \<^verbatim>\<open>new Post(firebaseHelper, postId)\<close> followed by \<^verbatim>\<open>fillPostData(postId, ...)\<close>. The class
  \<^verbatim>\<open>Post\<close> is not among the sources: \<open>cls\<close> stands for the \<^verbatim>\<open>fp-post-\<close> classes its
  constructor puts on the element for a post id.
\<close>

definition new_Post :: "('k \<Rightarrow> 'k set) \<Rightarrow> 'k \<Rightarrow> 'b \<Rightarrow> ('k, 'b) element" where
  "new_Post cls postId postData = \<lparr>el_classes = cls postId, el_postId = postId, el_data = postData\<rparr>"

definition addClass :: "'k \<Rightarrow> ('k, 'b) element \<Rightarrow> ('k, 'b) element" where
  "addClass k e = e\<lparr>el_classes := insert k (el_classes e)\<rparr>"

text \<open>
  The state of a \<^verbatim>\<open>Feed\<close>: \<open>feedImageContainer\<close> holds the displayed elements from the top
  of the page down; the two buttons and the message are kept by whether they are shown.
\<close>

record ('k, 'b) feed_view =
  fv_posts :: "'k list"
  newPosts :: "('k \<times> 'b) list"
  feedImageContainer :: "('k, 'b) element list"
  noPostsMessage :: bool
  newPostsButton :: bool
  newPostsButton_text :: nat

definition addNewPost :: "'k \<Rightarrow> 'b \<Rightarrow> ('k, 'b) feed_view \<Rightarrow> ('k, 'b) feed_view" where
  "addNewPost postId postValue s =
     (let s = s\<lparr>newPosts := obj_set postId postValue (newPosts s)\<rparr>;
          s = s\<lparr>newPostsButton_text := length (map fst (newPosts s))\<rparr>
      in s\<lparr>newPostsButton := True\<rparr>)"

definition showNewPosts :: "('k \<Rightarrow> 'k set) \<Rightarrow> ('k, 'b) feed_view \<Rightarrow> ('k, 'b) feed_view" where
  "showNewPosts cls s =
     (let newPosts' = newPosts s;
          s = s\<lparr>newPosts := []\<rparr>;
          s = s\<lparr>newPostsButton := False\<rparr>
      in fold (\<lambda>(postKey, post) s.
                 s\<lparr>noPostsMessage := False,
                   fv_posts := fv_posts s @ [postKey],
                   feedImageContainer := new_Post cls postKey post # feedImageContainer s\<rparr>)
              newPosts' s)"

text \<open>The body of the loop of \<^verbatim>\<open>addPosts\<close>, for the entry at \<open>postIds[i]\<close>.\<close>

definition addPosts_step ::
  "('k \<Rightarrow> 'k set) \<Rightarrow> 'k \<times> 'b \<Rightarrow> ('k, 'b) feed_view \<Rightarrow> ('k, 'b) feed_view" where
  "addPosts_step cls entry s =
     (let postId = fst entry;
          postData = snd entry;
          postElement = new_Post cls postId postData;
          existingPostElement = filter (\<lambda>e. postId \<in> el_classes e) (feedImageContainer s)
      in s\<lparr>noPostsMessage := False,
           fv_posts := fv_posts s @ [postId],
           feedImageContainer :=
             (if length existingPostElement > 0
              then map (\<lambda>e. if postId \<in> el_classes e then postElement else e) (feedImageContainer s)
              else feedImageContainer s @ [addClass postId postElement])\<rparr>)"

text \<open>\<^verbatim>\<open>addPosts(posts)\<close>: the loop runs from the last key of \<open>posts\<close> down to the first.\<close>

definition addPosts ::
  "('k \<Rightarrow> 'k set) \<Rightarrow> ('k \<times> 'b) list \<Rightarrow> ('k, 'b) feed_view \<Rightarrow> ('k, 'b) feed_view" where
  "addPosts cls posts s = fold (addPosts_step cls) (rev posts) s"

section \<open>Example states\<close>

text \<open>Security rules that accept every write of the client, and rules that accept none.\<close>

definition allow_all :: "'k path \<Rightarrow> bool" where
  "allow_all p = True"

definition deny_all :: "'k path \<Rightarrow> bool" where
  "deny_all p = False"

text \<open>
  A hashtag feed with four entries whose third post has been deleted: nothing removes a
  post from the hashtag feeds when it is deleted.
\<close>

definition ex_hashtag :: "(nat, string) store" where
  "ex_hashtag = (\<lambda>l. [])
     (Posts := [(1, JObj ''a''), (2, JObj ''b''), (4, JObj ''d'')],
      Hashtags 7 := [(1, JTrue), (2, JTrue), (3, JTrue), (4, JTrue)])"

text \<open>
  Two users: user 20 has the posts 1, 2 and 3; user 10 has the post 4, which
  \<^verbatim>\<open>uploadNewPic\<close> also put on the home feed of its author. In \<open>ex_following\<close> user 10
  has followed user 20.
\<close>

definition ex_social :: "(nat, string) store" where
  "ex_social = (\<lambda>l. [])
     (Posts := [(1, JObj ''p1''), (2, JObj ''p2''), (3, JObj ''p3''), (4, JObj ''q'')],
      PeoplePosts 20 := [(1, JTrue), (2, JTrue), (3, JTrue)],
      PeoplePosts 10 := [(4, JTrue)],
      Feed 20 := [(1, JTrue), (2, JTrue), (3, JTrue)],
      Feed 10 := [(4, JTrue)])"

definition ex_following :: "(nat, string) store" where
  "ex_following = snd (toggleFollowUser allow_all 10 20 True ex_social)"

text \<open>The picture of post 3 is stored; its thumbnail is not (any more).\<close>

definition ex_blobs :: "blob_ref set" where
  "ex_blobs = {FromURL ''gs://pix/20/full/3/a.jpg''}"

text \<open>
  A feed showing the post 9, and a \<^verbatim>\<open>Post\<close> whose constructor puts no \<^verbatim>\<open>fp-post-\<close> class on
  its element.
\<close>

definition ex_view :: "(nat, string) feed_view" where
  "ex_view = \<lparr>fv_posts = [9], newPosts = [],
              feedImageContainer = [\<lparr>el_classes = {9}, el_postId = 9, el_data = ''z''\<rparr>],
              noPostsMessage = False, newPostsButton = False, newPostsButton_text = 0\<rparr>"

definition ex_cls :: "nat \<Rightarrow> nat set" where
  "ex_cls k = {}"

section \<open>Pagination: facts about one call\<close>

lemma expand_results_ops:
  "expand_results rules uri results (ents, ops, db) = (ents', ops', db') \<Longrightarrow>
   length ops' = length ops + length (filter (\<lambda>(k, r). r = None) results)"
proof (induction results arbitrary: ents ops db)
  case Nil
  then show ?case by simp
next
  case (Cons a results)
  obtain k r where a: "a = (k, r)" by (cases a)
  show ?case
  proof (cases r)
    case None
    with Cons a show ?thesis by (auto split: prod.splits)
  next
    case (Some v)
    with Cons a show ?thesis by auto
  qed
qed

lemma map_fst_obj_set: "k \<in> fst ` set xs \<Longrightarrow> map fst (obj_set k v xs) = map fst xs"
  by (induction xs) force+

lemma expand_results_clean:
  "list_all (\<lambda>(k, r). r \<noteq> None \<and> k \<in> fst ` set ents) results \<Longrightarrow>
   \<exists>ents'. expand_results rules uri results (ents, ops, db) = (ents', ops, db) \<and>
           map fst ents' = map fst ents"
proof (induction results arbitrary: ents)
  case Nil
  then show ?case by simp
next
  case (Cons a results)
  obtain k v where a: "a = (k, Some v)" and k: "k \<in> fst ` set ents"
    using Cons.prems by (cases a) auto
  have m: "map fst (obj_set k v ents) = map fst ents" using k by (rule map_fst_obj_set)
  then have "fst ` set (obj_set k v ents) = fst ` set ents" by (metis list.set_map)
  with Cons.prems have "list_all (\<lambda>(k', r). r \<noteq> None \<and> k' \<in> fst ` set (obj_set k v ents)) results"
    by (simp add: list_all_iff)
  from Cons.IH[OF this] m a show ?case by auto
qed

lemma expand_results_db_accept:
  "\<forall>k. rules (Child uri k) \<Longrightarrow>
   expand_results rules uri results (ents, ops, db) = (ents', ops', db') \<Longrightarrow>
   db' = db(uri := filter (\<lambda>(k, v). (k, None) \<notin> set results) (db uri))"
proof (induction results arbitrary: ents ops db)
  case Nil
  then show ?case by simp
next
  case (Cons a results)
  obtain k r where a: "a = (k, r)" by (cases a)
  show ?case
  proof (cases r)
    case None
    let ?db1 = "db(uri := remove_child k (db uri))"
    from Cons.prems(2) a None Cons.prems(1)
    have "expand_results rules uri results (obj_delete k ents, ops @ [Resolved], ?db1) = (ents', ops', db')"
      by (simp add: deleteFromFeed_def update_def)
    from Cons.IH[OF Cons.prems(1) this] a None show ?thesis
      by (auto simp: remove_child_def fun_eq_iff intro!: filter_cong)
  next
    case (Some v)
    with Cons a show ?thesis by auto
  qed
qed

lemma limitToLast_more:
  assumes "n < length xs"
  shows "tl (limitToLast (n + 1) xs) = limitToLast n xs"
    and "hd (limitToLast (n + 1) xs) = xs ! (length xs - n - 1)"
    and "n < length (limitToLast (n + 1) xs)"
proof -
  have s: "Suc (length xs - Suc n) = length xs - n" using assms by arith
  show "tl (limitToLast (n + 1) xs) = limitToLast n xs"
    by (simp add: limitToLast_def drop_Suc[symmetric] tl_drop s del: drop_Suc)
  show "hd (limitToLast (n + 1) xs) = xs ! (length xs - n - 1)"
    using assms by (simp add: limitToLast_def hd_drop_conv_nth)
  show "n < length (limitToLast (n + 1) xs)"
    using assms by (simp add: limitToLast_def)
qed

lemma limitToLast_all:
  assumes "\<not> n < length xs"
  shows "limitToLast (n + 1) xs = xs" and "limitToLast n xs = xs"
    and "\<not> n < length (limitToLast (n + 1) xs)"
  using assms by (simp_all add: limitToLast_def)

lemma paginate_plain:
  "getPaginatedFeed rules db uri n e False =
     Some (\<lparr>entries = limitToLast n (remaining db uri e),
            nextPage = next_cursor n (remaining db uri e)\<rparr>, db)"
proof (cases "n < length (remaining db uri e)")
  case True
  show ?thesis
    apply (subst getPaginatedFeed.simps)
    using limitToLast_more[OF True] True
    by (simp add: remaining_def[symmetric] Let_def next_cursor_def)
next
  case False
  show ?thesis
    apply (subst getPaginatedFeed.simps)
    using limitToLast_all[OF False] False
    by (simp add: remaining_def[symmetric] Let_def next_cursor_def)
qed

lemma paginate_details:
  "getPaginatedFeed rules db uri n e True =
     (let ents = limitToLast n (remaining db uri e);
          (ents', deleteOps, db') =
             expand_results rules uri (map (\<lambda>k. (k, getPostData db k)) (map fst ents)) (ents, [], db)
      in if deleteOps \<noteq> [] then getPaginatedFeed rules db' uri n e True
         else Some (\<lparr>entries = ents', nextPage = next_cursor n (remaining db uri e)\<rparr>, db'))"
proof (cases "n < length (remaining db uri e)")
  case True
  show ?thesis
    apply (subst getPaginatedFeed.simps)
    using limitToLast_more[OF True] True
    by (simp add: remaining_def[symmetric] Let_def next_cursor_def split: prod.splits)
next
  case False
  show ?thesis
    apply (subst getPaginatedFeed.simps)
    using limitToLast_all[OF False] False
    by (simp add: remaining_def[symmetric] Let_def next_cursor_def split: prod.splits)
qed

lemma map_of_filter_keys:
  "map_of (filter (\<lambda>(k', v). P k') xs) k = (if P k then map_of xs k else None)"
  by (induction xs) auto

lemma getPostData_prune:
  assumes "D \<subseteq> {k. getPostData db k = None}"
  shows "getPostData (db(uri := filter (\<lambda>(k, v). k \<notin> D) (db uri))) = getPostData db"
proof (rule ext)
  fix k
  show "getPostData (db(uri := filter (\<lambda>(k, v). k \<notin> D) (db uri))) k = getPostData db k"
    using assms by (cases "uri = Posts") (auto simp: getPostData_def map_of_filter_keys)
qed

lemma set_limitToLast: "set (limitToLast n xs) \<subseteq> set xs"
  by (simp add: limitToLast_def set_drop_subset)

lemma set_remaining: "set (remaining db uri e) \<subseteq> set (db uri)"
  by (auto simp: remaining_def endAt_def split: option.splits)

lemma paginate_returns_details:
  assumes acc: "\<forall>k. rules (Child uri k)"
  shows "\<exists>r db' D. getPaginatedFeed rules db uri n e True = Some (r, db') \<and>
           map fst (entries r) = map fst (limitToLast n (remaining db' uri e)) \<and>
           nextPage r = next_cursor n (remaining db' uri e) \<and>
           db' = db(uri := filter (\<lambda>(k, v). k \<notin> D) (db uri)) \<and>
           D \<subseteq> {k. getPostData db k = None} \<and>
           {k \<in> fst ` set (limitToLast n (remaining db uri e)). getPostData db k = None} \<subseteq> D \<and>
           (\<forall>k \<in> fst ` set (entries r). getPostData db k \<noteq> None)"
proof (induction "length (db uri)" arbitrary: db rule: less_induct)
  case less
  let ?ents = "limitToLast n (remaining db uri e)"
  let ?res = "map (\<lambda>k. (k, getPostData db k)) (map fst ?ents)"
  obtain ents' ops db1 where ex: "expand_results rules uri ?res (?ents, [], db) = (ents', ops, db1)"
    by (cases "expand_results rules uri ?res (?ents, [], db)") auto
  show ?case
  proof (cases "\<exists>k \<in> fst ` set ?ents. getPostData db k = None")
    case False
    then have "list_all (\<lambda>(k, r). r \<noteq> None \<and> k \<in> fst ` set ?ents) ?res"
      by (auto simp: list_all_iff)
    from expand_results_clean[OF this, of rules uri "[]" db] ex
    have c: "ops = []" "db1 = db" "map fst ents' = map fst ?ents" by auto
    have g: "getPaginatedFeed rules db uri n e True =
               Some (\<lparr>entries = ents', nextPage = next_cursor n (remaining db uri e)\<rparr>, db)"
      apply (subst paginate_details)
      using ex c by (simp add: Let_def)
    have k: "\<forall>k \<in> fst ` set ents'. getPostData db k \<noteq> None"
      using False c(3) by (metis list.set_map)
    have "db = db(uri := filter (\<lambda>(k, v). k \<notin> {}) (db uri))" by simp
    moreover have "{k \<in> fst ` set ?ents. getPostData db k = None} \<subseteq> {}"
      using False by blast
    ultimately show ?thesis using g c(3) k
      by (intro exI[of _ "\<lparr>entries = ents', nextPage = next_cursor n (remaining db uri e)\<rparr>"]
                exI[of _ db] exI[of _ "{}"]) simp
  next
    case True
    then obtain k where k: "k \<in> fst ` set ?ents" "getPostData db k = None" by blast
    let ?D0 = "{k. (k, None) \<in> set ?res}"
    have kres: "(k, None) \<in> set ?res" using k by force
    have "filter (\<lambda>(k, r). r = None) ?res \<noteq> []"
      using kres by (simp only: filter_empty_conv) blast
    moreover define cnt where "cnt = length (filter (\<lambda>(k, r). r = None) ?res)"
    ultimately have "cnt \<noteq> 0" by (simp only: length_0_conv not_False_eq_True)
    moreover have "length ops = length ([] :: completion list) + cnt"
      unfolding cnt_def by (rule expand_results_ops[OF ex])
    ultimately have ops: "ops \<noteq> []" by auto
    have db1: "db1 = db(uri := filter (\<lambda>(k, v). k \<notin> ?D0) (db uri))"
      using expand_results_db_accept[OF acc ex] by simp
    have D0: "?D0 \<subseteq> {k. getPostData db k = None}" by auto
    have "k \<in> fst ` set (db uri)"
      using k(1) set_limitToLast[of n "remaining db uri e"] set_remaining[of db uri e] by blast
    then obtain v where "(k, v) \<in> set (db uri)" by auto
    with kres have "length (filter (\<lambda>(k, v). k \<notin> ?D0) (db uri)) < length (db uri)"
      by (intro length_filter_less[of "(k, v)"]) auto
    then have "length (db1 uri) < length (db uri)" by (simp add: db1)
    from less[of db1, OF this] obtain r db' D where
      r: "getPaginatedFeed rules db1 uri n e True = Some (r, db')"
         "map fst (entries r) = map fst (limitToLast n (remaining db' uri e))"
         "nextPage r = next_cursor n (remaining db' uri e)"
         "db' = db1(uri := filter (\<lambda>(k, v). k \<notin> D) (db1 uri))"
         "D \<subseteq> {k. getPostData db1 k = None}"
         "{k \<in> fst ` set (limitToLast n (remaining db1 uri e)). getPostData db1 k = None} \<subseteq> D"
         "\<forall>k \<in> fst ` set (entries r). getPostData db1 k \<noteq> None"
      by (elim exE conjE) (rule that; assumption)
    have gp: "getPostData db1 = getPostData db"
      unfolding db1 by (rule getPostData_prune[OF D0])
    have g: "getPaginatedFeed rules db uri n e True = Some (r, db')"
      apply (subst paginate_details)
      using ex ops r(1) by (simp add: Let_def)
    have "db' = db(uri := filter (\<lambda>(k, v). k \<notin> D \<union> ?D0) (db uri))"
      unfolding r(4) db1 by (auto simp: fun_eq_iff intro!: filter_cong)
    moreover have "D \<union> ?D0 \<subseteq> {k. getPostData db k = None}"
      using r(5) D0 gp by auto
    moreover have "{k \<in> fst ` set ?ents. getPostData db k = None} \<subseteq> D \<union> ?D0"
    proof
      fix k' assume "k' \<in> {k \<in> fst ` set ?ents. getPostData db k = None}"
      then have a: "k' \<in> set (map fst ?ents)" "getPostData db k' = None" by simp_all
      from a(1) have "(k', getPostData db k') \<in> set ?res" by (simp only: set_map) (rule imageI)
      with a(2) show "k' \<in> D \<union> ?D0" by simp
    qed
    ultimately show ?thesis using g r(2,3,7) gp
      by (intro exI[of _ r] exI[of _ db'] exI[of _ "D \<union> ?D0"]) simp
  qed
qed

lemma keys_filter: "map fst (filter (\<lambda>(k, v). P k) xs) = filter P (map fst xs)"
  by (induction xs) auto

lemma sorted_keys_filter:
  "sorted_wrt (<) (map fst xs) \<Longrightarrow> sorted_wrt (<) (map fst (filter (\<lambda>(k, v). P k) xs))"
  by (simp add: keys_filter sorted_wrt_filter)

lemma sorted_remaining:
  "sorted_wrt (<) (map fst (db uri)) \<Longrightarrow> sorted_wrt (<) (map fst (remaining db uri e))"
  by (cases e) (simp_all add: remaining_def endAt_def sorted_keys_filter)

lemma remaining_bound: "k \<in> fst ` set (remaining db uri (Some c)) \<Longrightarrow> k \<le> c"
  by (auto simp: remaining_def endAt_def)

lemma page_above_cursor:
  assumes s: "sorted_wrt (<) (map fst xs)" and n: "n < length xs"
    and k: "k \<in> fst ` set (limitToLast n xs)"
  shows "fst (xs ! (length xs - n - 1)) < k"
proof -
  from k obtain j where j: "j < length (limitToLast n xs)" "k = fst (limitToLast n xs ! j)"
    by (auto simp: in_set_conv_nth)
  let ?i = "length xs - n - 1"
  have lt: "?i < length xs - n + j" "length xs - n + j < length xs"
    using n j(1) by (auto simp: limitToLast_def)
  have "k = map fst xs ! (length xs - n + j)"
    using j lt by (simp add: limitToLast_def)
  moreover have "fst (xs ! ?i) = map fst xs ! ?i" using n by simp
  moreover have "map fst xs ! ?i < map fst xs ! (length xs - n + j)"
    using sorted_wrt_nth_less[OF s, of ?i "length xs - n + j"] lt by simp
  ultimately show ?thesis by simp
qed

lemma paginate_returns:
  assumes acc: "fd \<longrightarrow> (\<forall>k. rules (Child uri k))"
  shows "\<exists>r db' D. getPaginatedFeed rules db uri n e fd = Some (r, db') \<and>
           map fst (entries r) = map fst (limitToLast n (remaining db' uri e)) \<and>
           nextPage r = next_cursor n (remaining db' uri e) \<and>
           db' = db(uri := filter (\<lambda>(k, v). k \<notin> D) (db uri)) \<and>
           D \<subseteq> {k. fd \<and> getPostData db k = None} \<and>
           (\<not> fd \<longrightarrow> entries r = limitToLast n (remaining db uri e))"
proof (cases fd)
  case True
  with acc have "\<forall>k. rules (Child uri k)" by simp
  from paginate_returns_details[OF this, of db n e] obtain r db' D where
    r: "getPaginatedFeed rules db uri n e True = Some (r, db')"
       "map fst (entries r) = map fst (limitToLast n (remaining db' uri e))"
       "nextPage r = next_cursor n (remaining db' uri e)"
       "db' = db(uri := filter (\<lambda>(k, v). k \<notin> D) (db uri))"
       "D \<subseteq> {k. getPostData db k = None}"
    by (elim exE conjE) (rule that; assumption)
  with True show ?thesis
    by (intro exI[of _ r] exI[of _ db'] exI[of _ D]) simp
next
  case False
  have "db = db(uri := filter (\<lambda>(k, v). k \<notin> {}) (db uri))" by simp
  with False show ?thesis
    by (intro exI[of _ "\<lparr>entries = limitToLast n (remaining db uri e),
            nextPage = next_cursor n (remaining db uri e)\<rparr>"] exI[of _ db] exI[of _ "{}"])
       (simp add: paginate_plain)
qed

section \<open>Pagination: what a call that returns has done\<close>

lemma expand_results_db:
  "expand_results rules uri results (ents, ops, db) = (ents', ops', db') \<Longrightarrow>
   db' = db(uri := filter (\<lambda>(k, v). \<not> ((k, None) \<in> set results \<and> rules (Child uri k))) (db uri))"
proof (induction results arbitrary: ents ops db)
  case Nil
  then show ?case by simp
next
  case (Cons a results)
  obtain k r where a: "a = (k, r)" by (cases a)
  show ?case
  proof (cases r)
    case None
    show ?thesis
    proof (cases "rules (Child uri k)")
      case True
      let ?db1 = "db(uri := remove_child k (db uri))"
      from Cons.prems a None True
      have "expand_results rules uri results (obj_delete k ents, ops @ [Resolved], ?db1) = (ents', ops', db')"
        by (simp add: deleteFromFeed_def update_def)
      from Cons.IH[OF this] a None True show ?thesis
        by (auto simp: remove_child_def fun_eq_iff intro!: filter_cong)
    next
      case False
      from Cons.prems a None False
      have "expand_results rules uri results (obj_delete k ents, ops @ [Rejected], db) = (ents', ops', db')"
        by (simp add: deleteFromFeed_def update_def)
      from Cons.IH[OF this] a None False show ?thesis
        by (auto simp: fun_eq_iff intro!: filter_cong)
    qed
  next
    case (Some v)
    with Cons a show ?thesis by auto
  qed
qed

lemma body_details:
  "(let ref = (case e of None \<Rightarrow> db uri | Some e \<Rightarrow> endAt e (db uri));
        data = limitToLast (n + 1) ref;
        more = (length data > n);
        ents = (if more then tl data else data);
        next = (if more then Some (fst (hd data)) else None);
        entryIds = map fst ents
    in if fd then
         (let results = map (\<lambda>postId. (postId, getPostData db postId)) entryIds;
              (ents', deleteOps, db') = expand_results rules uri results (ents, [], db)
          in if length deleteOps > 0
             then f rules db' uri n e fd
             else Some (\<lparr>entries = ents', nextPage = next\<rparr>, db'))
       else Some (\<lparr>entries = ents, nextPage = next\<rparr>, db)) =
   (let ents = limitToLast n (remaining db uri e) in
    if fd then
      (let (ents', deleteOps, db') =
             expand_results rules uri (map (\<lambda>k. (k, getPostData db k)) (map fst ents)) (ents, [], db)
       in if deleteOps \<noteq> [] then f rules db' uri n e fd
          else Some (\<lparr>entries = ents', nextPage = next_cursor n (remaining db uri e)\<rparr>, db'))
    else Some (\<lparr>entries = ents, nextPage = next_cursor n (remaining db uri e)\<rparr>, db))"
proof (cases "n < length (remaining db uri e)")
  case True
  show ?thesis
    using limitToLast_more[OF True] True
    by (simp add: remaining_def[symmetric] Let_def next_cursor_def split: prod.splits)
next
  case False
  show ?thesis
    using limitToLast_all[OF False] False
    by (simp add: remaining_def[symmetric] Let_def next_cursor_def split: prod.splits)
qed

lemma paginate_partial:
  assumes "getPaginatedFeed rules db uri n e fd = Some (r, db')"
  shows "map fst (entries r) = map fst (limitToLast n (remaining db' uri e)) \<and>
         nextPage r = next_cursor n (remaining db' uri e) \<and>
         (\<exists>D. db' = db(uri := filter (\<lambda>(k, v). k \<notin> D) (db uri)) \<and>
              D \<subseteq> {k. fd \<and> getPostData db k = None}) \<and>
         (\<not> fd \<longrightarrow> entries r = limitToLast n (remaining db uri e))"
proof -
  let ?Q = "\<lambda>(rules :: 'a path \<Rightarrow> bool) (db :: ('a, 'b) store) uri n e fd r db'.
         map fst (entries r) = map fst (limitToLast n (remaining db' uri e)) \<and>
         nextPage r = next_cursor n (remaining db' uri e) \<and>
         (\<exists>D. db' = db(uri := filter (\<lambda>(k, v). k \<notin> D) (db uri)) \<and>
              D \<subseteq> {k. fd \<and> getPostData db k = None}) \<and>
         (\<not> fd \<longrightarrow> entries r = limitToLast n (remaining db uri e))"
  have "?Q rules db uri n e fd (fst (r, db')) (snd (r, db'))"
  proof (rule getPaginatedFeed.raw_induct[where P = "\<lambda>rules db uri n e fd y.
            ?Q rules db uri n e fd (fst y) (snd y)", OF _ assms])
    fix f :: "('a path \<Rightarrow> bool) \<Rightarrow> ('a, 'b) store \<Rightarrow> 'a loc \<Rightarrow> nat \<Rightarrow> 'a option \<Rightarrow> bool \<Rightarrow>
              (('a, 'b) page \<times> ('a, 'b) store) option"
    fix rules db uri n e fd y
    assume ih: "\<And>rules db uri n e fd y. f rules db uri n e fd = Some y \<Longrightarrow>
                  ?Q rules db uri n e fd (fst y) (snd y)"
    assume "(let ref = (case e of None \<Rightarrow> db uri | Some e \<Rightarrow> endAt e (db uri));
        data = limitToLast (n + 1) ref;
        more = (length data > n);
        ents = (if more then tl data else data);
        next = (if more then Some (fst (hd data)) else None);
        entryIds = map fst ents
    in if fd then
         (let results = map (\<lambda>postId. (postId, getPostData db postId)) entryIds;
              (ents', deleteOps, db') = expand_results rules uri results (ents, [], db)
          in if length deleteOps > 0
             then f rules db' uri n e fd
             else Some (\<lparr>entries = ents', nextPage = next\<rparr>, db'))
       else Some (\<lparr>entries = ents, nextPage = next\<rparr>, db)) = Some y"
    then have b: "(let ents = limitToLast n (remaining db uri e) in
        if fd then
          (let (ents', deleteOps, db') =
                 expand_results rules uri (map (\<lambda>k. (k, getPostData db k)) (map fst ents)) (ents, [], db)
           in if deleteOps \<noteq> [] then f rules db' uri n e fd
              else Some (\<lparr>entries = ents', nextPage = next_cursor n (remaining db uri e)\<rparr>, db'))
        else Some (\<lparr>entries = ents, nextPage = next_cursor n (remaining db uri e)\<rparr>, db)) = Some y"
      by (simp only: body_details)
    let ?ents = "limitToLast n (remaining db uri e)"
    let ?res = "map (\<lambda>k. (k, getPostData db k)) (map fst ?ents)"
    have id: "db = db(uri := filter (\<lambda>(k, v). k \<notin> {}) (db uri))" by simp
    show "?Q rules db uri n e fd (fst y) (snd y)"
    proof (cases fd)
      case False
      with b have y: "y = (\<lparr>entries = ?ents, nextPage = next_cursor n (remaining db uri e)\<rparr>, db)"
        by (simp add: Let_def)
      have "\<exists>D. db = db(uri := filter (\<lambda>(k, v). k \<notin> D) (db uri)) \<and> D \<subseteq> {k. fd \<and> getPostData db k = None}"
        using id by (intro exI[of _ "{}"]) simp
      with False show ?thesis by (simp add: y)
    next
      case True
      obtain ents' ops db1 where ex: "expand_results rules uri ?res (?ents, [], db) = (ents', ops, db1)"
        by (cases "expand_results rules uri ?res (?ents, [], db)") auto
      define cnt where "cnt = length (filter (\<lambda>(k, r). r = None) ?res)"
      have len: "length ops = length ([] :: completion list) + cnt"
        unfolding cnt_def by (rule expand_results_ops[OF ex])
      show ?thesis
      proof (cases "ops = []")
        case ops: True
        with len have "cnt = 0" by simp
        then have "filter (\<lambda>(k, r). r = None) ?res = []"
          unfolding cnt_def by (simp only: length_0_conv)
        then have nn: "\<forall>x \<in> set ?res. \<not> (\<lambda>(k, r). r = None) x"
          by (simp only: filter_empty_conv)
        have "list_all (\<lambda>(k, r). r \<noteq> None \<and> k \<in> fst ` set ?ents) ?res"
          unfolding list_all_iff
        proof
          fix x assume x: "x \<in> set ?res"
          with nn have "\<not> (\<lambda>(k, r). r = None) x" by (rule bspec)
          moreover from x have "fst x \<in> fst ` set ?ents" by force
          ultimately show "(\<lambda>(k, r). r \<noteq> None \<and> k \<in> fst ` set ?ents) x" by (cases x) simp
        qed
        from expand_results_clean[OF this, of rules uri "[]" db] ex
        have c: "db1 = db" "map fst ents' = map fst ?ents" by auto
        from b True ex ops have y: "y = (\<lparr>entries = ents', nextPage = next_cursor n (remaining db uri e)\<rparr>, db1)"
          by (simp add: Let_def)
        have "\<exists>D. db = db(uri := filter (\<lambda>(k, v). k \<notin> D) (db uri)) \<and> D \<subseteq> {k. fd \<and> getPostData db k = None}"
          using id by (intro exI[of _ "{}"]) simp
        with True c show ?thesis by (simp add: y)
      next
        case ops: False
        from b True ex ops have fy: "f rules db1 uri n e fd = Some y"
          by (simp add: Let_def)
        note q = ih[OF fy]
        let ?D0 = "{k. (k, None) \<in> set ?res \<and> rules (Child uri k)}"
        have db1: "db1 = db(uri := filter (\<lambda>(k, v). k \<notin> ?D0) (db uri))"
          using expand_results_db[OF ex] by simp
        have D0: "?D0 \<subseteq> {k. getPostData db k = None}" by auto
        have gp: "getPostData db1 = getPostData db"
          unfolding db1 by (rule getPostData_prune[OF D0])
        from q obtain D where
          D: "snd y = db1(uri := filter (\<lambda>(k, v). k \<notin> D) (db1 uri))"
             "D \<subseteq> {k. fd \<and> getPostData db1 k = None}"
          by (elim exE conjE) (rule that; assumption)
        have "snd y = db(uri := filter (\<lambda>(k, v). k \<notin> D \<union> ?D0) (db uri))"
          unfolding D(1) db1 by (auto simp: fun_eq_iff intro!: filter_cong)
        moreover have "D \<union> ?D0 \<subseteq> {k. fd \<and> getPostData db k = None}"
          using D(2) D0 gp True by auto
        ultimately have "\<exists>D. snd y = db(uri := filter (\<lambda>(k, v). k \<notin> D) (db uri)) \<and>
              D \<subseteq> {k. fd \<and> getPostData db k = None}"
          by (intro exI[of _ "D \<union> ?D0"] conjI)
        with q True show ?thesis by (simp only: simp_thms) 
      qed
    qed
  qed
  then show ?thesis unfolding fst_conv snd_conv .
qed

section \<open>The pagination contract\<close>

lemma obj_set_replace:
  "distinct (map fst xs) \<Longrightarrow> k \<in> fst ` set xs \<Longrightarrow>
   obj_set k v xs = map (\<lambda>(k', v'). (k', if k' = k then v else v')) xs"
proof (induction xs)
  case Nil
  then show ?case by simp
next
  case (Cons a xs)
  obtain k' v' where a: "a = (k', v')" by (cases a)
  show ?case
  proof (cases "k = k'")
    case True
    have "map (\<lambda>(k'', v''). (k'', if k'' = k then v else v'')) xs = xs"
      using Cons.prems(1) True by (intro map_idI) (force simp: a)
    with True show ?thesis by (simp add: a)
  next
    case False
    with Cons show ?thesis by (auto simp: a)
  qed
qed

lemma expand_results_values:
  "distinct (map fst ents) \<Longrightarrow> set ks \<subseteq> fst ` set ents \<Longrightarrow> \<forall>k \<in> set ks. g k \<noteq> None \<Longrightarrow>
   expand_results rules uri (map (\<lambda>k. (k, g k)) ks) (ents, ops, db) =
     (map (\<lambda>(k, v). (k, if k \<in> set ks then the (g k) else v)) ents, ops, db)"
proof (induction ks arbitrary: ents)
  case Nil
  then show ?case by simp
next
  case (Cons k ks)
  from Cons.prems(3) obtain w where w: "g k = Some w" by auto
  let ?e1 = "map (\<lambda>(k', v'). (k', if k' = k then w else v')) ents"
  have o: "obj_set k w ents = ?e1"
    using Cons.prems(1,2) by (intro obj_set_replace) auto
  have keys: "map fst ?e1 = map fst ents" by (induction ents) auto
  have d: "distinct (map fst ?e1)" using Cons.prems(1) by (simp only: keys)
  have s: "set ks \<subseteq> fst ` set ?e1"
  proof -
    have "set (map fst ?e1) = set (map fst ents)" by (simp only: keys)
    then have "fst ` set ?e1 = fst ` set ents" by (simp only: set_map)
    with Cons.prems(2) show ?thesis by simp
  qed
  have g: "\<forall>k \<in> set ks. g k \<noteq> None" using Cons.prems(3) by simp
  have "map (\<lambda>(k', v). (k', if k' \<in> set ks then the (g k') else v)) ?e1 =
        map (\<lambda>(k', v). (k', if k' \<in> set (k # ks) then the (g k') else v)) ents"
    by (induction ents) (auto simp: w)
  with Cons.IH[OF d s g] show ?case by (simp add: w o)
qed

lemma sorted_limitToLast:
  "sorted_wrt (<) (map fst xs) \<Longrightarrow> sorted_wrt (<) (map fst (limitToLast n xs))"
  by (simp add: limitToLast_def drop_map[symmetric] sorted_wrt_drop)

lemma paginate_values:
  assumes ret: "getPaginatedFeed rules db uri n e True = Some (r, db')"
    and srt: "sorted_wrt (<) (map fst (db uri))"
  shows "entries r = map (\<lambda>(k, v). (k, the (getPostData db k))) (limitToLast n (remaining db' uri e)) \<and>
         (\<forall>k \<in> fst ` set (entries r). getPostData db k \<noteq> None)"
proof -
  let ?Q = "\<lambda>(db :: ('a, 'b) store) uri n e r db'.
         entries r = map (\<lambda>(k, v). (k, the (getPostData db k))) (limitToLast n (remaining db' uri e)) \<and>
         (\<forall>k \<in> fst ` set (entries r). getPostData db k \<noteq> None)"
  have "True \<longrightarrow> sorted_wrt (<) (map fst (db uri)) \<longrightarrow> ?Q db uri n e (fst (r, db')) (snd (r, db'))"
  proof (rule getPaginatedFeed.raw_induct[where P = "\<lambda>rules db uri n e fd y.
            fd \<longrightarrow> sorted_wrt (<) (map fst (db uri)) \<longrightarrow> ?Q db uri n e (fst y) (snd y)", OF _ ret])
    fix f :: "('a path \<Rightarrow> bool) \<Rightarrow> ('a, 'b) store \<Rightarrow> 'a loc \<Rightarrow> nat \<Rightarrow> 'a option \<Rightarrow> bool \<Rightarrow>
              (('a, 'b) page \<times> ('a, 'b) store) option"
    fix rules db uri n e fd y
    assume ih: "\<And>rules db uri n e fd y. f rules db uri n e fd = Some y \<Longrightarrow>
                  fd \<longrightarrow> sorted_wrt (<) (map fst (db uri)) \<longrightarrow> ?Q db uri n e (fst y) (snd y)"
    assume "(let ref = (case e of None \<Rightarrow> db uri | Some e \<Rightarrow> endAt e (db uri));
        data = limitToLast (n + 1) ref;
        more = (length data > n);
        ents = (if more then tl data else data);
        next = (if more then Some (fst (hd data)) else None);
        entryIds = map fst ents
    in if fd then
         (let results = map (\<lambda>postId. (postId, getPostData db postId)) entryIds;
              (ents', deleteOps, db') = expand_results rules uri results (ents, [], db)
          in if length deleteOps > 0
             then f rules db' uri n e fd
             else Some (\<lparr>entries = ents', nextPage = next\<rparr>, db'))
       else Some (\<lparr>entries = ents, nextPage = next\<rparr>, db)) = Some y"
    then have b: "(let ents = limitToLast n (remaining db uri e) in
        if fd then
          (let (ents', deleteOps, db') =
                 expand_results rules uri (map (\<lambda>k. (k, getPostData db k)) (map fst ents)) (ents, [], db)
           in if deleteOps \<noteq> [] then f rules db' uri n e fd
              else Some (\<lparr>entries = ents', nextPage = next_cursor n (remaining db uri e)\<rparr>, db'))
        else Some (\<lparr>entries = ents, nextPage = next_cursor n (remaining db uri e)\<rparr>, db)) = Some y"
      by (simp only: body_details)
    let ?ents = "limitToLast n (remaining db uri e)"
    let ?res = "map (\<lambda>k. (k, getPostData db k)) (map fst ?ents)"
    show "fd \<longrightarrow> sorted_wrt (<) (map fst (db uri)) \<longrightarrow> ?Q db uri n e (fst y) (snd y)"
    proof (intro impI)
      assume True: fd and s: "sorted_wrt (<) (map fst (db uri))"
      obtain ents' ops db1 where ex: "expand_results rules uri ?res (?ents, [], db) = (ents', ops, db1)"
        by (cases "expand_results rules uri ?res (?ents, [], db)") auto
      define cnt where "cnt = length (filter (\<lambda>(k, r). r = None) ?res)"
      have len: "length ops = length ([] :: completion list) + cnt"
        unfolding cnt_def by (rule expand_results_ops[OF ex])
      show "?Q db uri n e (fst y) (snd y)"
      proof (cases "ops = []")
        case ops: True
        with len have "cnt = 0" by simp
        then have "filter (\<lambda>(k, r). r = None) ?res = []"
          unfolding cnt_def by (simp only: length_0_conv)
        then have nn: "\<forall>x \<in> set ?res. \<not> (\<lambda>(k, r). r = None) x"
          by (simp only: filter_empty_conv)
        have g: "\<forall>k \<in> set (map fst ?ents). getPostData db k \<noteq> None"
        proof
          fix k assume "k \<in> set (map fst ?ents)"
          then have "(k, getPostData db k) \<in> set ?res" by (simp only: set_map) (rule imageI)
          with nn have "\<not> (\<lambda>(k, r). r = None) (k, getPostData db k)" by (rule bspec)
          then show "getPostData db k \<noteq> None" by simp
        qed
        have d: "distinct (map fst ?ents)"
          using sorted_limitToLast[OF sorted_remaining[of db uri e, OF s], of n]
          by (simp add: strict_sorted_iff)
        have sub: "set (map fst ?ents) \<subseteq> fst ` set ?ents" by simp
        note v = expand_results_values[OF d sub g, of rules uri "[]" db]
        from ex[symmetric] v
        have eq: "(ents', ops, db1) =
          (map (\<lambda>(k, v). (k, if k \<in> set (map fst ?ents) then the (getPostData db k) else v)) ?ents,
           [], db)"
          by (rule trans)
        have c: "db1 = db" "ents' = map (\<lambda>(k, v). (k, if k \<in> set (map fst ?ents) then the (getPostData db k) else v)) ?ents"
          using eq by blast+
        have "ents' = map (\<lambda>(k, v). (k, the (getPostData db k))) ?ents"
          unfolding c(2) by (rule map_cong) force+
        moreover have "\<forall>k \<in> fst ` set ents'. getPostData db k \<noteq> None"
        proof
          fix k assume "k \<in> fst ` set ents'"
          then have "k \<in> set (map fst ents')" by simp
          also have "map fst ents' = map fst ?ents" unfolding c(2) by (induction ?ents) auto
          finally show "getPostData db k \<noteq> None" using g by blast
        qed
        moreover from b True ex ops have y: "y = (\<lparr>entries = ents', nextPage = next_cursor n (remaining db uri e)\<rparr>, db1)"
          by (simp add: Let_def)
        ultimately show ?thesis by (simp add: y c(1))
      next
        case ops: False
        from b True ex ops have fy: "f rules db1 uri n e fd = Some y"
          by (simp add: Let_def)
        let ?D0 = "{k. (k, None) \<in> set ?res \<and> rules (Child uri k)}"
        have db1: "db1 = db(uri := filter (\<lambda>(k, v). k \<notin> ?D0) (db uri))"
          using expand_results_db[OF ex] by simp
        have D0: "?D0 \<subseteq> {k. getPostData db k = None}" by auto
        have gp: "getPostData db1 = getPostData db"
          unfolding db1 by (rule getPostData_prune[OF D0])
        have s1: "sorted_wrt (<) (map fst (db1 uri))"
          using s by (simp add: db1 sorted_keys_filter)
        from ih[OF fy] True s1 have "?Q db1 uri n e (fst y) (snd y)" by blast
        then show ?thesis unfolding gp .
      qed
    qed
  qed
  with srt show ?thesis unfolding fst_conv snd_conv by blast
qed

lemma paginate_page:
  fixes db :: "('k::linorder, 'b) store"
  assumes ret: "getPaginatedFeed rules db uri n e fd = Some (r, db')"
    and srt: "sorted_wrt (<) (map fst (db uri))"
  shows "entries r = map (\<lambda>(k, v). (k, if fd then the (getPostData db' k) else v))
                       (limitToLast n (remaining db' uri e))"
    and "\<forall>k \<in> fst ` set (entries r). fd \<longrightarrow> getPostData db' k \<noteq> None"
    and "nextPage r = next_cursor n (remaining db' uri e)"
    and "\<exists>D. db' = db(uri := filter (\<lambda>(k, v). k \<notin> D) (db uri)) \<and>
             D \<subseteq> {k. fd \<and> getPostData db k = None}"
    and "sorted_wrt (<) (map fst (db' uri))"
proof -
  from paginate_partial[OF ret] obtain D where
    p: "nextPage r = next_cursor n (remaining db' uri e)"
       "db' = db(uri := filter (\<lambda>(k, v). k \<notin> D) (db uri))"
       "D \<subseteq> {k. fd \<and> getPostData db k = None}"
       "\<not> fd \<longrightarrow> entries r = limitToLast n (remaining db uri e)"
    by (elim exE conjE) (rule that; assumption)
  show "nextPage r = next_cursor n (remaining db' uri e)" by (rule p(1))
  show "\<exists>D. db' = db(uri := filter (\<lambda>(k, v). k \<notin> D) (db uri)) \<and>
             D \<subseteq> {k. fd \<and> getPostData db k = None}"
    using p(2,3) by (intro exI[of _ D] conjI)
  show "sorted_wrt (<) (map fst (db' uri))"
    using srt by (simp add: p(2) sorted_keys_filter)
  have D': "D \<subseteq> {k. getPostData db k = None}" using p(3) by blast
  have gp: "getPostData db' = getPostData db"
    unfolding p(2) by (rule getPostData_prune[OF D'])
  show "entries r = map (\<lambda>(k, v). (k, if fd then the (getPostData db' k) else v))
                       (limitToLast n (remaining db' uri e))"
  proof (cases fd)
    case True
    with ret have "getPaginatedFeed rules db uri n e True = Some (r, db')" by simp
    from paginate_values[OF this srt] True show ?thesis by (simp add: gp)
  next
    case False
    from False p(3) have "D = {}" by simp
    then have "filter (\<lambda>(k, v). k \<notin> D) (db uri) = db uri" by simp
    then have "db' = db" by (simp add: p(2))
    with False p(4) show ?thesis by simp
  qed
  show "\<forall>k \<in> fst ` set (entries r). fd \<longrightarrow> getPostData db' k \<noteq> None"
  proof (cases fd)
    case True
    with ret have "getPaginatedFeed rules db uri n e True = Some (r, db')" by simp
    from paginate_values[OF this srt]
    have "\<forall>k \<in> fst ` set (entries r). getPostData db k \<noteq> None" by (rule conjunct2)
    then show ?thesis unfolding gp by simp
  next
    case False
    then show ?thesis by simp
  qed
qed

lemma keys_of_page:
  "map fst (map (\<lambda>(k, v). (k, f k v)) xs) = map fst xs"
  by (induction xs) auto

lemma ex_hashtag_page2:
  "getPaginatedFeed allow_all ex_hashtag (Hashtags 7) 2 None True =
     Some (\<lparr>entries = [(2, JObj ''b''), (4, JObj ''d'')], nextPage = Some 1\<rparr>,
           ex_hashtag(Hashtags 7 := [(1, JTrue), (2, JTrue), (4, JTrue)]))"
  apply (subst paginate_details)
  apply (simp add: ex_hashtag_def remaining_def limitToLast_def getPostData_def deleteFromFeed_def
      update_def allow_all_def remove_child_def obj_delete_def Let_def)
  apply (subst paginate_details)
  apply (simp add: remaining_def limitToLast_def getPostData_def next_cursor_def Let_def fun_upd_twist)
  done

text \<open>
  C1, as the code has it. On a feed the store keeps in key order, a call that returns has
  removed from the feed only entries whose post record is missing (none when the post
  records are not fetched), and its page holds the \<open>n\<close> newest of the entries that remain
  within the bound after that repair, in ascending key order, each with its post record
  when the records are fetched. If more than \<open>n\<close> entries remain within the bound,
  \<open>nextPage\<close> is the key just below the page, the page holds exactly \<open>n\<close> entries, and
  every entry of the page that continuing from \<open>nextPage\<close> returns (again the newest of
  what remains below) has a key strictly smaller than every key of this page. If at most
  \<open>n\<close> remain, \<open>nextPage\<close> is \<^verbatim>\<open>null\<close> and the page holds all of them. When the store
  accepts the removal of every entry of the feed (or the post records are not fetched),
  every call returns.
\<close>

theorem paginate_contract:
  fixes db :: "('k::linorder, 'b) store"
  assumes srt: "sorted_wrt (<) (map fst (db uri))"
  shows "(\<forall>r db'. getPaginatedFeed rules db uri n e fd = Some (r, db') \<longrightarrow>
           (\<exists>D. db' = db(uri := filter (\<lambda>(k, v). k \<notin> D) (db uri)) \<and>
                D \<subseteq> {k. fd \<and> getPostData db k = None}) \<and>
           entries r = map (\<lambda>(k, v). (k, if fd then the (getPostData db' k) else v))
                         (limitToLast n (remaining db' uri e)) \<and>
           (\<forall>k \<in> fst ` set (entries r). fd \<longrightarrow> getPostData db' k \<noteq> None) \<and>
           (n < length (remaining db' uri e) \<longrightarrow>
              nextPage r = Some (fst (remaining db' uri e ! (length (remaining db' uri e) - n - 1))) \<and>
              length (entries r) = n \<and>
              (\<forall>r2 db2. getPaginatedFeed rules db' uri n (nextPage r) fd = Some (r2, db2) \<longrightarrow>
                 entries r2 = map (\<lambda>(k, v). (k, if fd then the (getPostData db2 k) else v))
                                (limitToLast n (remaining db2 uri (nextPage r))) \<and>
                 (\<forall>k2 \<in> fst ` set (entries r2). \<forall>k1 \<in> fst ` set (entries r). k2 < k1))) \<and>
           (length (remaining db' uri e) \<le> n \<longrightarrow>
              nextPage r = None \<and>
              entries r = map (\<lambda>(k, v). (k, if fd then the (getPostData db' k) else v))
                            (remaining db' uri e))) \<and>
         ((fd \<longrightarrow> (\<forall>k. rules (Child uri k))) \<longrightarrow>
           (\<forall>(db0 :: ('k, 'b) store) e0.
              \<exists>r db'. getPaginatedFeed rules db0 uri n e0 fd = Some (r, db')))"
proof (rule conjI)
  show "(fd \<longrightarrow> (\<forall>k. rules (Child uri k))) \<longrightarrow>
           (\<forall>(db0 :: ('k, 'b) store) e0.
              \<exists>r db'. getPaginatedFeed rules db0 uri n e0 fd = Some (r, db'))"
  proof (intro impI allI)
    fix db0 :: "('k, 'b) store" and e0
    assume acc: "fd \<longrightarrow> (\<forall>k. rules (Child uri k))"
    from paginate_returns[OF acc, of db0 n e0]
    show "\<exists>r db'. getPaginatedFeed rules db0 uri n e0 fd = Some (r, db')"
      by (elim exE conjE) (intro exI; assumption)
  qed
next
  show "\<forall>r db'. getPaginatedFeed rules db uri n e fd = Some (r, db') \<longrightarrow>
           (\<exists>D. db' = db(uri := filter (\<lambda>(k, v). k \<notin> D) (db uri)) \<and>
                D \<subseteq> {k. fd \<and> getPostData db k = None}) \<and>
           entries r = map (\<lambda>(k, v). (k, if fd then the (getPostData db' k) else v))
                         (limitToLast n (remaining db' uri e)) \<and>
           (\<forall>k \<in> fst ` set (entries r). fd \<longrightarrow> getPostData db' k \<noteq> None) \<and>
           (n < length (remaining db' uri e) \<longrightarrow>
              nextPage r = Some (fst (remaining db' uri e ! (length (remaining db' uri e) - n - 1))) \<and>
              length (entries r) = n \<and>
              (\<forall>r2 db2. getPaginatedFeed rules db' uri n (nextPage r) fd = Some (r2, db2) \<longrightarrow>
                 entries r2 = map (\<lambda>(k, v). (k, if fd then the (getPostData db2 k) else v))
                                (limitToLast n (remaining db2 uri (nextPage r))) \<and>
                 (\<forall>k2 \<in> fst ` set (entries r2). \<forall>k1 \<in> fst ` set (entries r). k2 < k1))) \<and>
           (length (remaining db' uri e) \<le> n \<longrightarrow>
              nextPage r = None \<and>
              entries r = map (\<lambda>(k, v). (k, if fd then the (getPostData db' k) else v))
                            (remaining db' uri e))"
  proof (intro allI impI)
    fix r db'
    assume ret: "getPaginatedFeed rules db uri n e fd = Some (r, db')"
    note pg = paginate_page[OF ret srt]
    let ?rem = "remaining db' uri e"
    let ?c = "fst (?rem ! (length ?rem - n - 1))"
    have keys: "map fst (entries r) = map fst (limitToLast n ?rem)"
      unfolding pg(1) by (rule keys_of_page)
    have more: "nextPage r = Some ?c \<and> length (entries r) = n \<and>
              (\<forall>r2 db2. getPaginatedFeed rules db' uri n (nextPage r) fd = Some (r2, db2) \<longrightarrow>
                 entries r2 = map (\<lambda>(k, v). (k, if fd then the (getPostData db2 k) else v))
                                (limitToLast n (remaining db2 uri (nextPage r))) \<and>
                 (\<forall>k2 \<in> fst ` set (entries r2). \<forall>k1 \<in> fst ` set (entries r). k2 < k1))"
      if n: "n < length ?rem"
    proof -
      have c: "nextPage r = Some ?c" using n by (simp add: pg(3) next_cursor_def)
      have len: "length (entries r) = n"
        using n by (simp add: pg(1) limitToLast_def)
      have hi: "?c < k1" if "k1 \<in> fst ` set (entries r)" for k1
      proof -
        have "set (map fst (entries r)) = set (map fst (limitToLast n ?rem))"
          by (simp only: keys)
        with that have "k1 \<in> set (map fst (limitToLast n ?rem))"
          by (simp only: set_map)
        then have "k1 \<in> fst ` set (limitToLast n ?rem)" by simp
        from page_above_cursor[OF sorted_remaining[of db' uri e, OF pg(5)] n this] show ?thesis .
      qed
      have lo: "entries r2 = map (\<lambda>(k, v). (k, if fd then the (getPostData db2 k) else v))
                                (limitToLast n (remaining db2 uri (nextPage r))) \<and>
                (\<forall>k2 \<in> fst ` set (entries r2). \<forall>k1 \<in> fst ` set (entries r). k2 < k1)"
        if ret2': "getPaginatedFeed rules db' uri n (nextPage r) fd = Some (r2, db2)" for r2 db2
      proof
        from ret2' have ret2: "getPaginatedFeed rules db' uri n (Some ?c) fd = Some (r2, db2)"
          by (simp only: c)
        note pg2 = paginate_page[OF ret2 pg(5)]
        show "entries r2 = map (\<lambda>(k, v). (k, if fd then the (getPostData db2 k) else v))
                                (limitToLast n (remaining db2 uri (nextPage r)))"
          unfolding c by (rule pg2(1))
        have keys2: "map fst (entries r2) = map fst (limitToLast n (remaining db2 uri (Some ?c)))"
          unfolding pg2(1) by (rule keys_of_page)
        show "\<forall>k2 \<in> fst ` set (entries r2). \<forall>k1 \<in> fst ` set (entries r). k2 < k1"
        proof (intro ballI)
          fix k2 k1 assume k2: "k2 \<in> fst ` set (entries r2)" and k1: "k1 \<in> fst ` set (entries r)"
          have "set (map fst (entries r2)) =
                     set (map fst (limitToLast n (remaining db2 uri (Some ?c))))"
            by (simp only: keys2)
          with k2 have "k2 \<in> set (map fst (limitToLast n (remaining db2 uri (Some ?c))))"
            by (simp only: set_map)
          then have "k2 \<in> fst ` set (remaining db2 uri (Some ?c))"
            using set_limitToLast[of n "remaining db2 uri (Some ?c)"] by auto
          then have "k2 \<le> ?c" by (rule remaining_bound)
          with hi[OF k1] show "k2 < k1" by (rule le_less_trans[rotated])
        qed
      qed
      then have "\<forall>r2 db2. getPaginatedFeed rules db' uri n (nextPage r) fd = Some (r2, db2) \<longrightarrow>
                 entries r2 = map (\<lambda>(k, v). (k, if fd then the (getPostData db2 k) else v))
                                (limitToLast n (remaining db2 uri (nextPage r))) \<and>
                 (\<forall>k2 \<in> fst ` set (entries r2). \<forall>k1 \<in> fst ` set (entries r). k2 < k1)"
        by (intro allI impI)
      with c len show ?thesis by (intro conjI)
    qed
    have last: "nextPage r = None \<and>
              entries r = map (\<lambda>(k, v). (k, if fd then the (getPostData db' k) else v)) ?rem"
      if n: "length ?rem \<le> n"
    proof -
      have l: "limitToLast n ?rem = ?rem" using n by (simp add: limitToLast_def)
      have "nextPage r = None" using n by (simp add: pg(3) next_cursor_def)
      moreover have "entries r = map (\<lambda>(k, v). (k, if fd then the (getPostData db' k) else v)) ?rem"
        using pg(1) by (simp only: l)
      ultimately show ?thesis by (rule conjI)
    qed
    show "(\<exists>D. db' = db(uri := filter (\<lambda>(k, v). k \<notin> D) (db uri)) \<and>
                D \<subseteq> {k. fd \<and> getPostData db k = None}) \<and>
           entries r = map (\<lambda>(k, v). (k, if fd then the (getPostData db' k) else v))
                         (limitToLast n ?rem) \<and>
           (\<forall>k \<in> fst ` set (entries r). fd \<longrightarrow> getPostData db' k \<noteq> None) \<and>
           (n < length ?rem \<longrightarrow>
              nextPage r = Some ?c \<and>
              length (entries r) = n \<and>
              (\<forall>r2 db2. getPaginatedFeed rules db' uri n (nextPage r) fd = Some (r2, db2) \<longrightarrow>
                 entries r2 = map (\<lambda>(k, v). (k, if fd then the (getPostData db2 k) else v))
                                (limitToLast n (remaining db2 uri (nextPage r))) \<and>
                 (\<forall>k2 \<in> fst ` set (entries r2). \<forall>k1 \<in> fst ` set (entries r). k2 < k1))) \<and>
           (length ?rem \<le> n \<longrightarrow>
              nextPage r = None \<and>
              entries r = map (\<lambda>(k, v). (k, if fd then the (getPostData db' k) else v)) ?rem)"
    proof (intro conjI)
      show "\<exists>D. db' = db(uri := filter (\<lambda>(k, v). k \<notin> D) (db uri)) \<and>
                D \<subseteq> {k. fd \<and> getPostData db k = None}" by (rule pg(4))
      show "entries r = map (\<lambda>(k, v). (k, if fd then the (getPostData db' k) else v))
                         (limitToLast n ?rem)" by (rule pg(1))
      show "\<forall>k \<in> fst ` set (entries r). fd \<longrightarrow> getPostData db' k \<noteq> None" by (rule pg(2))
      show "n < length ?rem \<longrightarrow>
              nextPage r = Some ?c \<and>
              length (entries r) = n \<and>
              (\<forall>r2 db2. getPaginatedFeed rules db' uri n (nextPage r) fd = Some (r2, db2) \<longrightarrow>
                 entries r2 = map (\<lambda>(k, v). (k, if fd then the (getPostData db2 k) else v))
                                (limitToLast n (remaining db2 uri (nextPage r))) \<and>
                 (\<forall>k2 \<in> fst ` set (entries r2). \<forall>k1 \<in> fst ` set (entries r). k2 < k1))"
        using more by (rule impI)
      show "length ?rem \<le> n \<longrightarrow>
              nextPage r = None \<and>
              entries r = map (\<lambda>(k, v). (k, if fd then the (getPostData db' k) else v)) ?rem"
        using last by (rule impI)
    qed
  qed
qed

theorem paginate_contract_witness:
  "sorted_wrt (<) (map fst (ex_hashtag (Hashtags 7))) \<and>
   (\<forall>k::nat. allow_all (Child (Hashtags 7) k)) \<and>
   (\<exists>r db'. getPaginatedFeed allow_all ex_hashtag (Hashtags 7) 2 None True = Some (r, db') \<and>
      db' = ex_hashtag(Hashtags 7 := [(1, JTrue), (2, JTrue), (4, JTrue)]) \<and>
      entries r = [(2, JObj ''b''), (4, JObj ''d'')] \<and>
      nextPage r = Some 1 \<and>
      (\<exists>r2 db2. getPaginatedFeed allow_all db' (Hashtags 7) 2 (nextPage r) True = Some (r2, db2) \<and>
         length (remaining db2 (Hashtags 7) (nextPage r)) \<le> 2 \<and>
         nextPage r2 = None \<and>
         entries r2 = [(1, JObj ''a'')] \<and>
         (\<forall>k2 \<in> fst ` set (entries r2). \<forall>k1 \<in> fst ` set (entries r). k2 < k1)))"
proof -
  have s: "sorted_wrt (<) (map fst (ex_hashtag (Hashtags 7)))"
    by (simp add: ex_hashtag_def)
  have a: "\<forall>k::nat. allow_all (Child (Hashtags 7) k)"
    by (simp add: allow_all_def)
  note t = paginate_contract[where db = ex_hashtag and uri = "Hashtags 7" and rules = allow_all
      and n = 2 and e = None and fd = True, OF s]
  from a have a': "True \<longrightarrow> (\<forall>k::nat. allow_all (Child (Hashtags 7) k))" by simp
  note tot = t[THEN conjunct2, THEN mp, OF a', rule_format]
  from tot[of ex_hashtag None] obtain r db' where
    ret: "getPaginatedFeed allow_all ex_hashtag (Hashtags 7) 2 None True = Some (r, db')" by blast
  note p = t[THEN conjunct1, rule_format, OF ret]
  from ret ex_hashtag_page2
  have db': "db' = ex_hashtag(Hashtags 7 := [(1, JTrue), (2, JTrue), (4, JTrue)])" by simp
  have rem: "remaining db' (Hashtags 7) None = [(1, JTrue), (2, JTrue), (4, JTrue)]"
    by (simp add: db' remaining_def)
  have gp: "getPostData db' = getPostData ex_hashtag"
    by (simp add: db' getPostData_def ex_hashtag_def fun_eq_iff)
  from p[THEN conjunct2, THEN conjunct1]
  have ents: "entries r = [(2, JObj ''b''), (4, JObj ''d'')]"
    by (simp add: rem gp limitToLast_def getPostData_def ex_hashtag_def)
  have n: "2 < length (remaining db' (Hashtags 7) None)" by (simp add: rem)
  note m = p[THEN conjunct2, THEN conjunct2, THEN conjunct2, THEN conjunct1, THEN mp, OF n]
  from m[THEN conjunct1] have nx: "nextPage r = Some 1" by (simp add: rem)
  from tot[of db' "nextPage r"] obtain r2 db2 where
    ret2: "getPaginatedFeed allow_all db' (Hashtags 7) 2 (nextPage r) True = Some (r2, db2)" by blast
  note c = m[THEN conjunct2, THEN conjunct2, rule_format, OF ret2]
  have r2: "getPaginatedFeed allow_all db' (Hashtags 7) 2 (Some 1) True =
              Some (\<lparr>entries = [(1, JObj ''a'')], nextPage = None\<rparr>, db')"
    apply (subst paginate_details)
    apply (simp add: db' ex_hashtag_def remaining_def endAt_def limitToLast_def getPostData_def
        next_cursor_def Let_def)
    done
  from ret2 r2 nx have db2: "db2 = db'" by simp
  have s': "sorted_wrt (<) (map fst (db' (Hashtags 7)))" by (simp add: db')
  note t2 = paginate_contract[where db = db' and uri = "Hashtags 7" and rules = allow_all
      and n = 2 and e = "nextPage r" and fd = True, OF s']
  note p2 = t2[THEN conjunct1, rule_format, OF ret2]
  have rem2: "remaining db2 (Hashtags 7) (nextPage r) = [(1, JTrue)]"
    by (simp add: db2 db' nx remaining_def endAt_def)
  have le: "length (remaining db2 (Hashtags 7) (nextPage r)) \<le> 2" by (simp add: rem2)
  note l = p2[THEN conjunct2, THEN conjunct2, THEN conjunct2, THEN conjunct2, THEN mp, OF le]
  from l[THEN conjunct1] have nn: "nextPage r2 = None" .
  have gp2: "getPostData db2 = getPostData ex_hashtag" by (simp only: db2 gp)
  from l[THEN conjunct2] have ne: "entries r2 = [(1, JObj ''a'')]"
    by (simp add: rem2 gp2 getPostData_def ex_hashtag_def)
  from c[THEN conjunct2] have ord: "\<forall>k2 \<in> fst ` set (entries r2). \<forall>k1 \<in> fst ` set (entries r). k2 < k1" .
  from ret2 le nn ne ord have "\<exists>r2 db2. getPaginatedFeed allow_all db' (Hashtags 7) 2 (nextPage r) True = Some (r2, db2) \<and>
         length (remaining db2 (Hashtags 7) (nextPage r)) \<le> 2 \<and>
         nextPage r2 = None \<and>
         entries r2 = [(1, JObj ''a'')] \<and>
         (\<forall>k2 \<in> fst ` set (entries r2). \<forall>k1 \<in> fst ` set (entries r). k2 < k1)"
    by (intro exI[of _ r2] exI[of _ db2] conjI)
  with ret db' ents nx have "\<exists>r db'. getPaginatedFeed allow_all ex_hashtag (Hashtags 7) 2 None True = Some (r, db') \<and>
      db' = ex_hashtag(Hashtags 7 := [(1, JTrue), (2, JTrue), (4, JTrue)]) \<and>
      entries r = [(2, JObj ''b''), (4, JObj ''d'')] \<and>
      nextPage r = Some 1 \<and>
      (\<exists>r2 db2. getPaginatedFeed allow_all db' (Hashtags 7) 2 (nextPage r) True = Some (r2, db2) \<and>
         length (remaining db2 (Hashtags 7) (nextPage r)) \<le> 2 \<and>
         nextPage r2 = None \<and>
         entries r2 = [(1, JObj ''a'')] \<and>
         (\<forall>k2 \<in> fst ` set (entries r2). \<forall>k1 \<in> fst ` set (entries r). k2 < k1))"
    by - (rule exI[of _ r], rule exI[of _ db'], intro conjI)
  with s a show ?thesis by (intro conjI)
qed

text \<open>
  The claim C1 counts the entries at the call. The feed of hashtag 7 holds four entries,
  more than the page size 3, of which entry 3 has no post record: the call removes it,
  returns the three entries that are left, and \<open>nextPage\<close> is \<^verbatim>\<open>null\<close>.
\<close>

theorem paginate_counts_after_repair:
  "3 < length (remaining ex_hashtag (Hashtags 7) None) \<and>
   getPaginatedFeed allow_all ex_hashtag (Hashtags 7) 3 None True =
     Some (\<lparr>entries = [(1, JObj ''a''), (2, JObj ''b''), (4, JObj ''d'')], nextPage = None\<rparr>,
           ex_hashtag(Hashtags 7 := [(1, JTrue), (2, JTrue), (4, JTrue)]))"
proof
  show "3 < length (remaining ex_hashtag (Hashtags 7) None)"
    by (simp add: remaining_def ex_hashtag_def)
  show "getPaginatedFeed allow_all ex_hashtag (Hashtags 7) 3 None True =
     Some (\<lparr>entries = [(1, JObj ''a''), (2, JObj ''b''), (4, JObj ''d'')], nextPage = None\<rparr>,
           ex_hashtag(Hashtags 7 := [(1, JTrue), (2, JTrue), (4, JTrue)]))"
    apply (subst paginate_details)
    apply (simp add: ex_hashtag_def remaining_def limitToLast_def getPostData_def deleteFromFeed_def
        update_def allow_all_def remove_child_def obj_delete_def Let_def)
    apply (subst paginate_details)
    apply (simp add: remaining_def limitToLast_def getPostData_def next_cursor_def Let_def fun_upd_twist)
    done
qed

section \<open>The repair of dangling entries\<close>









section \<open>The home feed cursor\<close>

lemma ex_following_eq:
  "ex_following = ex_social
     (Feed 10 := [(1, JTrue), (2, JTrue), (3, JTrue), (4, JTrue)],
      Following 10 := [(20, JStr 3)],
      Followers 20 := [(10, JTrue)])"
  by (simp add: ex_following_def toggleFollowUser_def ex_social_def update_def allow_all_def fun_eq_iff)

text \<open>
  C3, at an input where the code departs from it. User 10 follows user 20, whose posts
  are 1, 2 and 3, so the stored cursor \<open>following[20]\<close> is 3. The query that
  \<open>startHomeFeedLiveUpdaters\<close> and \<open>updateHomeFeeds\<close> build is not anchored at the cursor
  (the test \<^verbatim>\<open>instanceof String\<close> fails on the stored string): it ranges over all three
  posts. Each of the two functions then writes the cursor for the older posts 1 and 2 and
  leaves it at 2, below the 3 it held.
\<close>

theorem home_feed_cursor_rewound:
  "ex_following (Following 10) = [(20, JStr 3)] \<and>
   followedUserPostsRef ex_following 20 (JStr 3) = [(1, JTrue), (2, JTrue), (3, JTrue)] \<and>
   startHomeFeedLiveUpdaters allow_all 10 ex_following (Following 10) = [(20, JStr 2)] \<and>
   updateHomeFeeds allow_all 10 ex_following (Following 10) = [(20, JStr 2)]"
  by (simp add: ex_following_eq ex_social_def startHomeFeedLiveUpdaters_def updateHomeFeeds_def
      followedUserPostsRef_def instanceof_String_def onFollowedPostAdded_def homeFeedUpdates_def
      update_def allow_all_def Let_def)

section \<open>The write of the live home feed updater\<close>

lemma set_child_idem: "set_child k v (set_child k v xs) = set_child k v xs"
  by (induction xs) auto

lemma set_child_count:
  "sorted_wrt (<) (map fst xs) \<Longrightarrow> length (filter (\<lambda>(k', v'). k' = k) (set_child k v xs)) = 1"
proof (induction xs)
  case Nil
  then show ?case by simp
next
  case (Cons a xs)
  obtain k' v' where a: "a = (k', v')" by (cases a)
  have none: "filter (\<lambda>(k'', v''). k'' = k) xs = []" if "k \<le> k'"
    using Cons.prems that by (auto simp: a filter_empty_conv)
  show ?case
  proof (cases "k < k'")
    case True
    with none show ?thesis by (simp add: a)
  next
    case False
    show ?thesis
    proof (cases "k = k'")
      case True
      with none show ?thesis by (simp add: a)
    next
      case ne: False
      with False Cons show ?thesis by (simp add: a)
    qed
  qed
qed

lemma map_of_set_child: "map_of (set_child k v xs) k = Some v"
  by (induction xs) auto

text \<open>
  C5. For every post id that passes the test of the live updater's callback
  (\<^verbatim>\<open>postData.key !== followingData.val()\<close>), on a home feed the store keeps in key order
  and with a write the store accepts: delivering the id to the callback twice leaves the
  store exactly as delivering it once, the home feed then holds exactly one entry for the
  id, and that entry is \<^verbatim>\<open>true\<close>.
\<close>

theorem live_insert_idempotent:
  assumes srt: "sorted_wrt (<) (map fst (db (Feed me)))"
    and acc: "rules (Child (Feed me) postKey)" "rules (Child (Following me) followedUid)"
    and new: "JStr postKey \<noteq> v"
  shows "onFollowedPostAdded rules me followedUid v postKey
           (onFollowedPostAdded rules me followedUid v postKey db) =
         onFollowedPostAdded rules me followedUid v postKey db \<and>
         length (filter (\<lambda>(k, x). k = postKey)
           (onFollowedPostAdded rules me followedUid v postKey
              (onFollowedPostAdded rules me followedUid v postKey db) (Feed me))) = 1 \<and>
         map_of (onFollowedPostAdded rules me followedUid v postKey db (Feed me)) postKey = Some JTrue"
proof -
  have w: "onFollowedPostAdded rules me followedUid v postKey d =
             d(Feed me := set_child postKey JTrue (d (Feed me)),
               Following me := set_child followedUid (JStr postKey) (d (Following me)))" for d
    using acc new by (simp add: onFollowedPostAdded_def update_def)
  have idem: "onFollowedPostAdded rules me followedUid v postKey
           (onFollowedPostAdded rules me followedUid v postKey db) =
         onFollowedPostAdded rules me followedUid v postKey db"
    by (simp add: w set_child_idem fun_eq_iff)
  have one: "length (filter (\<lambda>(k, x). k = postKey)
           (onFollowedPostAdded rules me followedUid v postKey db (Feed me))) = 1"
    using set_child_count[OF srt, of postKey JTrue] by (simp add: w)
  have val: "map_of (onFollowedPostAdded rules me followedUid v postKey db (Feed me)) postKey = Some JTrue"
    by (simp add: w map_of_set_child)
  from idem one val show ?thesis by (simp only:)
qed

theorem live_insert_idempotent_witness:
  "sorted_wrt (<) (map fst (ex_following (Feed 10))) \<and>
   allow_all (Child (Feed (10::nat)) 5) \<and> allow_all (Child (Following (10::nat)) 20) \<and>
   JStr 5 \<noteq> (JStr 3 :: (nat, string) jval) \<and>
   onFollowedPostAdded allow_all 10 20 (JStr 3) 5
     (onFollowedPostAdded allow_all 10 20 (JStr 3) 5 ex_following) =
   onFollowedPostAdded allow_all 10 20 (JStr 3) 5 ex_following \<and>
   length (filter (\<lambda>(k, x). k = 5)
     (onFollowedPostAdded allow_all 10 20 (JStr 3) 5
        (onFollowedPostAdded allow_all 10 20 (JStr 3) 5 ex_following) (Feed 10))) = 1 \<and>
   map_of (onFollowedPostAdded allow_all 10 20 (JStr 3) 5 ex_following (Feed 10)) 5 = Some JTrue"
proof -
  have srt: "sorted_wrt (<) (map fst (ex_following (Feed 10)))"
    by (simp add: ex_following_eq ex_social_def)
  have acc: "allow_all (Child (Feed (10::nat)) 5)" "allow_all (Child (Following (10::nat)) 20)"
    by (simp_all add: allow_all_def)
  have new: "JStr 5 \<noteq> (JStr 3 :: (nat, string) jval)" by simp
  note t = live_insert_idempotent[where db = ex_following and me = 10 and rules = allow_all
      and postKey = 5 and followedUid = 20 and v = "JStr 3", OF srt acc new]
  from srt acc new t[THEN conjunct1] t[THEN conjunct2, THEN conjunct1]
    t[THEN conjunct2, THEN conjunct2]
  show ?thesis by (intro conjI)
qed

section \<open>Follow and unfollow\<close>

lemma obj_set_fresh: "k \<notin> fst ` set xs \<Longrightarrow> obj_set k v xs = xs @ [(k, v)]"
  by (induction xs) auto

lemma toggle_fold:
  assumes "distinct (map fst data)" and "\<forall>k \<in> fst ` set data. Child l k \<notin> fst ` set u0"
  shows "fold (\<lambda>(key, _) (u, lastPostId). (obj_set (Child l key) w u, JStr key)) data (u0, l0) =
           (u0 @ map (\<lambda>(k, _). (Child l k, w)) data,
            if data = [] then l0 else JStr (fst (last data)))"
  using assms
proof (induction data arbitrary: u0 l0)
  case Nil
  then show ?case by simp
next
  case (Cons a data)
  obtain k x where a: "a = (k, x)" by (cases a)
  have f: "obj_set (Child l k) w u0 = u0 @ [(Child l k, w)]"
    using Cons.prems(2) by (intro obj_set_fresh) (simp add: a)
  have d: "distinct (map fst data)" using Cons.prems(1) by simp
  have n: "\<forall>k' \<in> fst ` set data. Child l k' \<notin> fst ` set (u0 @ [(Child l k, w)])"
    using Cons.prems by (auto simp: a)
  show ?case
    using Cons.IH[OF d n, of "JStr k"] by (simp add: a f)
qed

lemma fold_apply_set:
  "fold apply_write (map (\<lambda>(k, _). (Child l k, Some v)) data) db =
     db(l := fold (\<lambda>(k, _). set_child k v) data (db l))"
  by (induction data arbitrary: db) (auto simp: fun_upd_def)

lemma fold_apply_remove:
  "fold apply_write (map (\<lambda>(k, _). (Child l k, None)) data) db =
     db(l := fold (\<lambda>(k, _). remove_child k) data (db l))"
  by (induction data arbitrary: db) (auto simp: fun_upd_def)

lemma map_of_set_child_other:
  "map_of (set_child k' v xs) k = (if k = k' then Some v else map_of xs k)"
  by (induction xs) auto

lemma map_of_remove_child:
  "map_of (remove_child k' xs) k = (if k = k' then None else map_of xs k)"
  by (induction xs) (auto simp: remove_child_def)

lemma map_of_fold_set:
  "map_of (fold (\<lambda>(k, _). set_child k v) data xs) k =
     (if k \<in> fst ` set data then Some v else map_of xs k)"
  by (induction data arbitrary: xs) (auto simp: map_of_set_child_other)

lemma map_of_fold_remove:
  "map_of (fold (\<lambda>(k, _). remove_child k) data xs) k =
     (if k \<in> fst ` set data then None else map_of xs k)"
  by (induction data arbitrary: xs) (auto simp: map_of_remove_child)

lemma toggleFollowUser_updates:
  assumes "distinct (map fst (db (PeoplePosts followed)))"
  shows "toggleFollowUser rules me followed follow db =
           update rules
             (map (\<lambda>(k, _). (Child (Feed me) k, if follow then Some JTrue else None))
                  (db (PeoplePosts followed)) @
              [(Child (Following me) followed,
                  if follow
                  then Some (if db (PeoplePosts followed) = [] then JTrue
                             else JStr (fst (last (db (PeoplePosts followed)))))
                  else None),
               (Child (Followers followed) me, if follow then Some JTrue else None)]) db"
proof -
  let ?data = "db (PeoplePosts followed)"
  let ?w = "if follow then Some JTrue else None"
  let ?u = "map (\<lambda>(k, _). (Child (Feed me) k, ?w)) ?data"
  have f: "fold (\<lambda>(key, _) (u, lastPostId). (obj_set (Child (Feed me) key) ?w u, JStr key)) ?data ([], JTrue) =
           (?u, if ?data = [] then JTrue else JStr (fst (last ?data)))"
    using toggle_fold[OF assms, of "Feed me" "[]" ?w JTrue] by simp
  have p1: "Child (Following me) followed \<notin> fst ` set ?u" by auto
  have p2: "Child (Followers followed) me \<notin> fst ` set (?u @ [(Child (Following me) followed, c)])" for c
    by auto
  show ?thesis
    unfolding toggleFollowUser_def Let_def f prod.case
    by (simp only: obj_set_fresh[OF p1] obj_set_fresh[OF p2] append_assoc append.simps)
qed

lemma sorted_remove_child:
  "sorted_wrt (<) (map fst xs) \<Longrightarrow> sorted_wrt (<) (map fst (remove_child k xs))"
  unfolding remove_child_def by (rule sorted_keys_filter[of xs "\<lambda>k'. k' \<noteq> k"])

lemma keys_set_child: "fst ` set (set_child k v xs) = insert k (fst ` set xs)"
proof (induction xs)
  case Nil
  then show ?case by simp
next
  case (Cons a xs)
  obtain k' v' where a: "a = (k', v')" by (cases a)
  show ?case unfolding a using Cons.IH by (simp add: insert_commute)
qed

lemma sorted_set_child:
  "sorted_wrt (<) (map fst xs) \<Longrightarrow> sorted_wrt (<) (map fst (set_child k v xs))"
proof (induction xs)
  case Nil
  then show ?case by simp
next
  case (Cons a xs)
  obtain k' v' where a: "a = (k', v')" by (cases a)
  from Cons.prems have lt: "\<forall>x \<in> fst ` set xs. k' < x" and s: "sorted_wrt (<) (map fst xs)"
    by (auto simp: a)
  show ?case
  proof (cases "k < k'")
    case True
    with lt s show ?thesis by (auto simp: a)
  next
    case False
    show ?thesis
    proof (cases "k = k'")
      case True
      with lt s show ?thesis by (auto simp: a)
    next
      case ne: False
      with False have gt: "k' < k" by simp
      have "\<forall>x \<in> fst ` set (set_child k v xs). k' < x"
        using lt gt by (simp add: keys_set_child)
      then have "\<forall>x \<in> set (map fst (set_child k v xs)). k' < x" by simp
      with Cons.IH[OF s] False ne show ?thesis by (simp add: a del: set_map)
    qed
  qed
qed

lemma sorted_fold_set:
  "sorted_wrt (<) (map fst xs) \<Longrightarrow>
   sorted_wrt (<) (map fst (fold (\<lambda>(k, _). set_child k v) data xs))"
  by (induction data arbitrary: xs) (auto simp: sorted_set_child)

lemma sorted_fold_remove:
  "sorted_wrt (<) (map fst xs) \<Longrightarrow>
   sorted_wrt (<) (map fst (fold (\<lambda>(k, _). remove_child k) data xs))"
  by (induction data arbitrary: xs) (auto simp: sorted_remove_child)

lemma map_of_set_child_upd: "map_of (set_child k v xs) = (map_of xs)(k \<mapsto> v)"
  by (rule ext) (simp add: map_of_set_child_other)

lemma map_of_remove_child_upd: "map_of (remove_child k xs) = (map_of xs)(k := None)"
  by (rule ext) (simp add: map_of_remove_child)

lemma update_accepts:
  "update rules
     (map (\<lambda>(k, _). (Child l k, w)) data @ [(Child l1 k1, w1), (Child l2 k2, w2)]) db =
   (if list_all (\<lambda>(k, v). rules (Child l k)) data \<and> rules (Child l1 k1) \<and> rules (Child l2 k2)
    then (Resolved,
          apply_write (Child l2 k2, w2) (apply_write (Child l1 k1, w1)
            (fold apply_write (map (\<lambda>(k, _). (Child l k, w)) data) db)))
    else (Rejected, db))"
proof -
  have "list_all (\<lambda>(p, v). rules p) (map (\<lambda>(k, _). (Child l k, w)) data) =
        list_all (\<lambda>(k, v). rules (Child l k)) data"
    by (induction data) auto
  then show ?thesis by (simp add: update_def)
qed

text \<open>
  C4, as the code has it. \<open>toggleFollowUser\<close> makes one multi-path write, over the home
  feed entry of every post of the followed user, the caller's cursor for that user and
  the reverse follower entry. If the store accepts all of these paths the write resolves
  and, with \<open>follow\<close>, the caller's home feed holds every post of the followed user (marked
  \<^verbatim>\<open>true\<close>) beside the entries it held before, the caller's cursor for the followed user
  is the key of that user's last (newest) post (\<^verbatim>\<open>true\<close> when there is none) and the
  reverse follower entry is set; without \<open>follow\<close>, the home feed holds none of the
  followed user's posts and keeps its other entries, the cursor is absent and the reverse
  follower entry is cleared. The caller's other cursors and the followed user's other
  followers stay as they are, no other location changes, and every location kept in key
  order stays so. If the store refuses one of the paths the write is rejected and the
  store is unchanged.
\<close>

theorem follow_unfollow_fanout:
  fixes db :: "('k::linorder, 'b) store"
  assumes srt: "sorted_wrt (<) (map fst (db (PeoplePosts followed)))"
  shows "(list_all (\<lambda>(k, v). rules (Child (Feed me) k)) (db (PeoplePosts followed)) \<and>
          rules (Child (Following me) followed) \<and> rules (Child (Followers followed) me) \<longrightarrow>
            (\<exists>db'. toggleFollowUser rules me followed follow db = (Resolved, db') \<and>
               map_of (db' (Feed me)) =
                 (\<lambda>k. if k \<in> fst ` set (db (PeoplePosts followed))
                      then (if follow then Some JTrue else None)
                      else map_of (db (Feed me)) k) \<and>
               map_of (db' (Following me)) =
                 (map_of (db (Following me)))
                   (followed :=
                      if follow
                      then Some (if db (PeoplePosts followed) = [] then JTrue
                                 else JStr (fst (last (db (PeoplePosts followed)))))
                      else None) \<and>
               map_of (db' (Followers followed)) =
                 (map_of (db (Followers followed)))(me := if follow then Some JTrue else None) \<and>
               (\<forall>l. l \<notin> {Feed me, Following me, Followers followed} \<longrightarrow> db' l = db l) \<and>
               (\<forall>l. sorted_wrt (<) (map fst (db l)) \<longrightarrow> sorted_wrt (<) (map fst (db' l))))) \<and>
         (\<not> (list_all (\<lambda>(k, v). rules (Child (Feed me) k)) (db (PeoplePosts followed)) \<and>
             rules (Child (Following me) followed) \<and> rules (Child (Followers followed) me)) \<longrightarrow>
            toggleFollowUser rules me followed follow db = (Rejected, db))"
proof -
  have d: "distinct (map fst (db (PeoplePosts followed)))"
    using srt by (simp add: strict_sorted_iff)
  show ?thesis
  proof (cases follow)
    case True
    then show ?thesis
      unfolding toggleFollowUser_updates[where db = db and followed = followed, OF d] update_accepts
      by (auto simp: fold_apply_set map_of_fold_set map_of_set_child_upd sorted_fold_set
            sorted_set_child)
  next
    case False
    then show ?thesis
      unfolding toggleFollowUser_updates[where db = db and followed = followed, OF d] update_accepts
      by (auto simp: fold_apply_remove map_of_fold_remove map_of_remove_child_upd
            sorted_fold_remove sorted_remove_child)
  qed
qed

theorem follow_unfollow_fanout_witness:
  "sorted_wrt (<) (map fst (ex_social (PeoplePosts 20))) \<and>
   sorted_wrt (<) (map fst (ex_following (PeoplePosts 20))) \<and>
   list_all (\<lambda>(k, v). allow_all (Child (Feed 10) k)) (ex_social (PeoplePosts 20)) \<and>
   allow_all (Child (Following (10::nat)) (20::nat)) \<and>
   allow_all (Child (Followers (20::nat)) (10::nat)) \<and>
   (\<exists>db'. toggleFollowUser allow_all 10 20 True ex_social = (Resolved, db') \<and>
      map (\<lambda>k. map_of (db' (Feed 10)) k) [1, 2, 3, 4, 5] =
        [Some JTrue, Some JTrue, Some JTrue, Some JTrue, None] \<and>
      map_of (db' (Following 10)) 20 = Some (JStr 3) \<and>
      map_of (db' (Followers 20)) 10 = Some JTrue \<and>
      db' (PeoplePosts 20) = ex_social (PeoplePosts 20) \<and>
      sorted_wrt (<) (map fst (db' (Feed 10)))) \<and>
   (\<exists>db'. toggleFollowUser allow_all 10 20 False ex_following = (Resolved, db') \<and>
      map (\<lambda>k. map_of (db' (Feed 10)) k) [1, 2, 3, 4, 5] =
        [None, None, None, Some JTrue, None] \<and>
      map_of (db' (Following 10)) 20 = None \<and>
      map_of (db' (Followers 20)) 10 = None \<and>
      db' (PeoplePosts 20) = ex_social (PeoplePosts 20) \<and>
      sorted_wrt (<) (map fst (db' (Feed 10)))) \<and>
   \<not> deny_all (Child (Followers (20::nat)) (10::nat)) \<and>
   toggleFollowUser deny_all 10 20 True ex_social = (Rejected, ex_social)"
proof -
  have s1: "sorted_wrt (<) (map fst (ex_social (PeoplePosts 20)))"
    by (simp add: ex_social_def)
  have s2: "sorted_wrt (<) (map fst (ex_following (PeoplePosts 20)))"
    by (simp add: ex_following_eq ex_social_def)
  have a1: "list_all (\<lambda>(k, v). allow_all (Child (Feed 10) k)) (ex_social (PeoplePosts 20))"
    by (simp add: allow_all_def list_all_iff)
  have a2: "list_all (\<lambda>(k, v). allow_all (Child (Feed 10) k)) (ex_following (PeoplePosts 20))"
    by (simp add: allow_all_def list_all_iff)
  have a3: "allow_all (Child (Following (10::nat)) (20::nat))"
    "allow_all (Child (Followers (20::nat)) (10::nat))"
    by (simp_all add: allow_all_def)
  have n: "\<not> deny_all (Child (Followers (20::nat)) (10::nat))"
    by (simp add: deny_all_def)
  have f1: "sorted_wrt (<) (map fst (ex_social (Feed 10)))"
    by (simp add: ex_social_def)
  have f2: "sorted_wrt (<) (map fst (ex_following (Feed 10)))"
    by (simp add: ex_following_eq)
  have l1: "ex_social (PeoplePosts 20) = [(1, JTrue), (2, JTrue), (3, JTrue)]"
    "ex_social (Feed 10) = [(4, JTrue)]"
    by (simp_all add: ex_social_def)
  have l2: "ex_following (PeoplePosts 20) = [(1, JTrue), (2, JTrue), (3, JTrue)]"
    "ex_following (Feed 10) = [(1, JTrue), (2, JTrue), (3, JTrue), (4, JTrue)]"
    "ex_following (Following 10) = [(20, JStr 3)]"
    "ex_following (Followers 20) = [(10, JTrue)]"
    by (simp_all add: ex_following_eq ex_social_def)
  have p1: "\<exists>db'. toggleFollowUser allow_all 10 20 True ex_social = (Resolved, db') \<and>
      map (\<lambda>k. map_of (db' (Feed 10)) k) [1, 2, 3, 4, 5] =
        [Some JTrue, Some JTrue, Some JTrue, Some JTrue, None] \<and>
      map_of (db' (Following 10)) 20 = Some (JStr 3) \<and>
      map_of (db' (Followers 20)) 10 = Some JTrue \<and>
      db' (PeoplePosts 20) = ex_social (PeoplePosts 20) \<and>
      sorted_wrt (<) (map fst (db' (Feed 10)))"
    using follow_unfollow_fanout[where db = ex_social and followed = 20 and rules = allow_all
        and me = 10 and follow = True, OF s1] a1 a3 f1
    by (auto simp: l1)
  have p2: "\<exists>db'. toggleFollowUser allow_all 10 20 False ex_following = (Resolved, db') \<and>
      map (\<lambda>k. map_of (db' (Feed 10)) k) [1, 2, 3, 4, 5] =
        [None, None, None, Some JTrue, None] \<and>
      map_of (db' (Following 10)) 20 = None \<and>
      map_of (db' (Followers 20)) 10 = None \<and>
      db' (PeoplePosts 20) = ex_social (PeoplePosts 20) \<and>
      sorted_wrt (<) (map fst (db' (Feed 10)))"
    using follow_unfollow_fanout[where db = ex_following and followed = 20 and rules = allow_all
        and me = 10 and follow = False, OF s2] a2 a3 f2
    by (auto simp: l1 l2)
  have p3: "toggleFollowUser deny_all 10 20 True ex_social = (Rejected, ex_social)"
    using follow_unfollow_fanout[where db = ex_social and followed = 20 and rules = deny_all
        and me = 10 and follow = True, OF s1] n
    by simp
  from s1 s2 a1 a3 p1 p2 n p3 show ?thesis by (intro conjI)
qed

text \<open>
  The claim C4 says the home feed holds exactly the followed user's posts. User 10 has
  its own post 4 on its home feed; after following user 20 the feed holds 1, 2, 3 and 4.
\<close>

theorem follow_home_feed_not_exact:
  "fst ` set (snd (toggleFollowUser allow_all 10 20 True ex_social) (Feed 10)) \<noteq> {1, 2, 3}"
proof
  assume a: "fst ` set (snd (toggleFollowUser allow_all 10 20 True ex_social) (Feed 10)) = {1, 2, 3}"
  have "4 \<in> fst ` set (snd (toggleFollowUser allow_all 10 20 True ex_social) (Feed 10))"
    by (simp add: toggleFollowUser_def update_def allow_all_def ex_social_def)
  with a show False by simp
qed

section \<open>Deleting a post\<close>

lemma deletePost_unfold:
  "deletePost rules me postId pic thumb (db, storage) =
     (let (deleteFromDatabase, db') = update rules (deletePost_updates me postId) db
      in case pic of
           None \<Rightarrow> (deleteFromDatabase, db', storage)
         | Some p \<Rightarrow>
             if p = [] then (deleteFromDatabase, db', storage)
             else
               (let (deletePicFromStorage, storage1) = delete_blob (storage_ref p p) storage;
                    (deleteThumbFromStorage, storage2) = delete_blob (storage_ref p thumb) storage1
                in (promise_all [deleteFromDatabase, deletePicFromStorage, deleteThumbFromStorage],
                    db', storage2)))"
  by (auto simp: deletePost_def deletePost_updates_def storage_ref_def Let_def
        split: prod.splits option.splits)

text \<open>
  C6, as the code has it. The store \<open>deletePost\<close> leaves is that of its one multi-path
  write, whatever the picture files are and whatever becomes of their deletion: a failed
  file deletion rolls nothing back. The completion it returns is \<^verbatim>\<open>Promise.all\<close> of the
  write and the two file deletions when \<open>picStorageUri\<close> is given: it resolves exactly when
  the write resolves and both files are there to delete, and otherwise it fails.
\<close>

theorem deletePost_blob_failure:
  "fst (snd (deletePost rules me postId pic thumb (db, storage))) =
     snd (update rules (deletePost_updates me postId) db) \<and>
   (fst (deletePost rules me postId pic thumb (db, storage)) = Resolved \<longleftrightarrow>
      fst (update rules (deletePost_updates me postId) db) = Resolved \<and>
      (case pic of None \<Rightarrow> True
       | Some p \<Rightarrow> p = [] \<or>
           (storage_ref p p \<in> storage \<and> storage_ref p thumb \<in> storage - {storage_ref p p})))"
  by (cases "update rules (deletePost_updates me postId) db")
     (auto simp: deletePost_unfold delete_blob_def promise_all_def Let_def
           split: option.splits prod.splits if_splits)

text \<open>
  The claim C6 says a failed file deletion does not fail the call. User 20 deletes post
  3, whose thumbnail is not in storage: the write resolves, the post record is gone, and
  the completion returned is a rejection.
\<close>

theorem deletePost_fails_on_blob_failure:
  "fst (deletePost allow_all 20 3 (Some ''gs://pix/20/full/3/a.jpg'') ''gs://pix/20/thumb/3/a.jpg''
          (ex_social, ex_blobs)) = Rejected \<and>
   fst (update allow_all (deletePost_updates 20 3) ex_social) = Resolved \<and>
   getPostData (fst (snd (deletePost allow_all 20 3 (Some ''gs://pix/20/full/3/a.jpg'')
          ''gs://pix/20/thumb/3/a.jpg'' (ex_social, ex_blobs)))) 3 = None"
  by (simp add: deletePost_unfold deletePost_updates_def update_def allow_all_def ex_social_def
      ex_blobs_def delete_blob_def promise_all_def storage_ref_def startsWith_def getPostData_def
      remove_child_def Let_def)

section \<open>What deleting a post leaves behind\<close>





section \<open>The pending posts of a feed\<close>

lemma showNewPosts_fold:
  "fold (\<lambda>(postKey, post) s.
           s\<lparr>noPostsMessage := False,
             fv_posts := fv_posts s @ [postKey],
             feedImageContainer := new_Post cls postKey post # feedImageContainer s\<rparr>) xs s =
   s\<lparr>noPostsMessage := (if xs = [] then noPostsMessage s else False),
     fv_posts := fv_posts s @ map fst xs,
     feedImageContainer := rev (map (\<lambda>(k, v). new_Post cls k v) xs) @ feedImageContainer s\<rparr>"
  by (induction xs arbitrary: s) (auto split: prod.splits)

lemma showNewPosts_drains:
  "feedImageContainer (showNewPosts cls s) =
     rev (map (\<lambda>(k, v). new_Post cls k v) (newPosts s)) @ feedImageContainer s \<and>
   newPosts (showNewPosts cls s) = [] \<and> \<not> newPostsButton (showNewPosts cls s)"
  by (simp add: showNewPosts_def Let_def showNewPosts_fold)

text \<open>
  C7. A feed displaying three posts, the first topmost, with nothing pending, receives
  \<open>addNewPost\<close> for \<open>p4\<close> twice: the buffer holds \<open>p4\<close> once, with the value that came last,
  and the button is shown, counting one post. \<open>showNewPosts\<close> then empties the buffer,
  hides the button and puts the one element of \<open>p4\<close> on top: the displayed ids are
  \<open>[p4, p3, p2, p1]\<close>. In every state \<open>showNewPosts\<close> displays the whole buffer above what
  was displayed, the key set last topmost, and leaves the buffer empty and the button
  hidden.
\<close>

theorem reveal_pending_once:
  "addNewPost p4 v' (addNewPost p4 v
      \<lparr>fv_posts = ps, newPosts = [], feedImageContainer = [e3, e2, e1],
       noPostsMessage = m, newPostsButton = b, newPostsButton_text = t\<rparr>) =
     \<lparr>fv_posts = ps, newPosts = [(p4, v')], feedImageContainer = [e3, e2, e1],
      noPostsMessage = m, newPostsButton = True, newPostsButton_text = 1\<rparr> \<and>
   showNewPosts cls (addNewPost p4 v' (addNewPost p4 v
      \<lparr>fv_posts = ps, newPosts = [], feedImageContainer = [e3, e2, e1],
       noPostsMessage = m, newPostsButton = b, newPostsButton_text = t\<rparr>)) =
     \<lparr>fv_posts = ps @ [p4], newPosts = [],
      feedImageContainer = [new_Post cls p4 v', e3, e2, e1],
      noPostsMessage = False, newPostsButton = False, newPostsButton_text = 1\<rparr> \<and>
   map el_postId (feedImageContainer (showNewPosts cls (addNewPost p4 v' (addNewPost p4 v
      \<lparr>fv_posts = ps, newPosts = [],
       feedImageContainer = [new_Post cls p3 v3, new_Post cls p2 v2, new_Post cls p1 v1],
       noPostsMessage = m, newPostsButton = b, newPostsButton_text = t\<rparr>)))) = [p4, p3, p2, p1] \<and>
   (feedImageContainer (showNewPosts cls s) =
      rev (map (\<lambda>(k, v). new_Post cls k v) (newPosts s)) @ feedImageContainer s \<and>
    newPosts (showNewPosts cls s) = [] \<and> \<not> newPostsButton (showNewPosts cls s))"
  by (simp add: showNewPosts_drains) (simp add: addNewPost_def showNewPosts_def new_Post_def Let_def)

section \<open>Adding a page to the displayed posts\<close>

lemma addPosts_step_container:
  "feedImageContainer (addPosts_step cls (k, v) s) =
     (if \<exists>e \<in> set (feedImageContainer s). k \<in> el_classes e
      then map (\<lambda>e. if k \<in> el_classes e then new_Post cls k v else e) (feedImageContainer s)
      else feedImageContainer s @ [addClass k (new_Post cls k v)])"
  by (auto simp: addPosts_step_def Let_def filter_empty_conv)

lemma addPosts_step_wf:
  assumes own: "\<forall>k. cls k \<subseteq> {k}"
    and wf: "\<forall>e \<in> set (feedImageContainer s). el_classes e \<subseteq> {el_postId e}"
  shows "\<forall>e \<in> set (feedImageContainer (addPosts_step cls a s)). el_classes e \<subseteq> {el_postId e}"
proof -
  obtain k v where a: "a = (k, v)" by (cases a)
  have n: "el_classes (new_Post cls k v) \<subseteq> {el_postId (new_Post cls k v)}"
    using own by (simp add: new_Post_def)
  have t: "el_classes (addClass k (new_Post cls k v)) \<subseteq> {el_postId (addClass k (new_Post cls k v))}"
    using own by (simp add: new_Post_def addClass_def)
  show ?thesis
    unfolding a addPosts_step_container using wf n t by (auto split: if_splits)
qed

lemma addPosts_fold_wf:
  assumes own: "\<forall>k. cls k \<subseteq> {k}"
  shows "\<forall>e \<in> set (feedImageContainer s). el_classes e \<subseteq> {el_postId e} \<Longrightarrow>
         \<forall>e \<in> set (feedImageContainer (fold (addPosts_step cls) xs s)).
            el_classes e \<subseteq> {el_postId e}"
proof (induction xs arbitrary: s)
  case Nil
  then show ?case by simp
next
  case (Cons a xs)
  from Cons.IH[OF addPosts_step_wf[OF own Cons.prems, of a]] show ?case by simp
qed

lemma addPosts_fold_container:
  assumes own: "\<forall>k. cls k \<subseteq> {k}"
  shows "distinct (map fst xs) \<Longrightarrow>
         \<forall>e \<in> set (feedImageContainer s). el_classes e \<subseteq> {el_postId e} \<Longrightarrow>
         feedImageContainer (fold (addPosts_step cls) xs s) =
           map (\<lambda>e. case map_of xs (el_postId e) of
                      Some v \<Rightarrow> if el_postId e \<in> el_classes e
                                then new_Post cls (el_postId e) v else e
                    | None \<Rightarrow> e)
               (feedImageContainer s) @
           map (\<lambda>(k, v). addClass k (new_Post cls k v))
               (filter (\<lambda>(k, v). \<forall>e \<in> set (feedImageContainer s). k \<notin> el_classes e) xs)"
proof (induction xs arbitrary: s)
  case Nil
  then show ?case by simp
next
  case (Cons a xs)
  obtain k v where a: "a = (k, v)" by (cases a)
  let ?c = "feedImageContainer s"
  let ?s1 = "addPosts_step cls (k, v) s"
  let ?c1 = "feedImageContainer ?s1"
  let ?T = "\<lambda>(k, v). addClass k (new_Post cls k v)"
  let ?R = "\<lambda>ys e. case map_of ys (el_postId e) of
                      Some v \<Rightarrow> if el_postId e \<in> el_classes e
                                then new_Post cls (el_postId e) v else e
                    | None \<Rightarrow> e"
  let ?r = "\<lambda>e. if k \<in> el_classes e then new_Post cls k v else e"
  have wf: "\<forall>e \<in> set ?c. el_classes e \<subseteq> {el_postId e}" by (rule Cons.prems(2))
  have d: "distinct (map fst xs)" and kx: "k \<notin> fst ` set xs"
    using Cons.prems(1) by (auto simp: a)
  have mk: "map_of xs k = None" using kx by (simp add: map_of_eq_None_iff)
  have wf1: "\<forall>e \<in> set ?c1. el_classes e \<subseteq> {el_postId e}"
    by (rule addPosts_step_wf[OF own wf])
  have ih: "feedImageContainer (fold (addPosts_step cls) xs ?s1) =
              map (?R xs) ?c1 @ map ?T (filter (\<lambda>(k, v). \<forall>e \<in> set ?c1. k \<notin> el_classes e) xs)"
    by (rule Cons.IH[OF d wf1])
  have nk: "el_classes (new_Post cls k v) \<subseteq> {k}" using own by (simp add: new_Post_def)
  have tk: "el_classes (addClass k (new_Post cls k v)) = {k}"
    using own by (auto simp: new_Post_def addClass_def)
  show ?case
  proof (cases "\<exists>e \<in> set ?c. k \<in> el_classes e")
    case True
    then have c1: "?c1 = map ?r ?c"
      by (simp only: addPosts_step_container) (simp add: filter_empty_conv)
    have same: "(\<forall>e \<in> set ?c1. k' \<notin> el_classes e) = (\<forall>e \<in> set ?c. k' \<notin> el_classes e)"
      if "k' \<in> fst ` set xs" for k'
    proof -
      from that kx have ne: "k' \<noteq> k" by auto
      have "k' \<in> el_classes (?r e) \<longleftrightarrow> k' \<in> el_classes e" if e: "e \<in> set ?c" for e
      proof (cases "k \<in> el_classes e")
        case True
        with wf e have "el_classes e \<subseteq> {k}" by auto
        with ne nk True show ?thesis by auto
      next
        case False
        then show ?thesis by simp
      qed
      then have el: "\<forall>e \<in> set ?c. (k' \<in> el_classes (?r e)) = (k' \<in> el_classes e)"
        by (rule ballI)
      have "(\<forall>e \<in> set (map ?r ?c). k' \<notin> el_classes e) =
            (\<forall>e \<in> set ?c. k' \<notin> el_classes (?r e))"
        by (simp only: set_map ball_simps)
      also have "\<dots> = (\<forall>e \<in> set ?c. k' \<notin> el_classes e)"
        by (rule ball_cong[OF refl]) (use el in blast)
      finally show ?thesis unfolding c1 .
    qed
    have f: "filter (\<lambda>(k, v). \<forall>e \<in> set ?c1. k \<notin> el_classes e) xs =
             filter (\<lambda>(k, v). \<forall>e \<in> set ?c. k \<notin> el_classes e) xs"
    proof (rule filter_cong[OF refl])
      fix x assume x: "x \<in> set xs"
      obtain k' v' where kv: "x = (k', v')" by (cases x)
      from x have "fst x \<in> fst ` set xs" by (rule imageI)
      then have "k' \<in> fst ` set xs" by (simp only: kv fst_conv)
      from same[OF this]
      show "(case x of (k, v) \<Rightarrow> \<forall>e \<in> set ?c1. k \<notin> el_classes e) =
            (case x of (k, v) \<Rightarrow> \<forall>e \<in> set ?c. k \<notin> el_classes e)"
        by (simp only: kv prod.case)
    qed
    have m: "?R xs (?r e) = ?R ((k, v) # xs) e" if e: "e \<in> set ?c" for e
    proof (cases "k \<in> el_classes e")
      case True
      with wf e have pk: "el_postId e = k" by auto
      from True pk show ?thesis by (simp add: mk new_Post_def)
    next
      case False
      then show ?thesis by (cases "el_postId e = k") (simp_all add: mk)
    qed
    have mm: "map (?R xs) ?c1 = map (?R ((k, v) # xs)) ?c"
      unfolding c1 map_map by (rule map_cong[OF refl]) (use m in simp)
    have ff: "filter (\<lambda>(k, v). \<forall>e \<in> set ?c. k \<notin> el_classes e) ((k, v) # xs) =
              filter (\<lambda>(k, v). \<forall>e \<in> set ?c. k \<notin> el_classes e) xs"
      using True by simp
    have "feedImageContainer (fold (addPosts_step cls) (a # xs) s) =
            feedImageContainer (fold (addPosts_step cls) xs ?s1)"
      by (simp add: a)
    also have "\<dots> = map (?R ((k, v) # xs)) ?c @
                     map ?T (filter (\<lambda>(k, v). \<forall>e \<in> set ?c. k \<notin> el_classes e) ((k, v) # xs))"
      unfolding ih f mm ff ..
    finally show ?thesis unfolding a .
  next
    case False
    then have c1: "?c1 = ?c @ [addClass k (new_Post cls k v)]"
      by (simp only: addPosts_step_container) (simp add: filter_empty_conv)
    have same: "(\<forall>e \<in> set ?c1. k' \<notin> el_classes e) = (\<forall>e \<in> set ?c. k' \<notin> el_classes e)"
      if "k' \<in> fst ` set xs" for k'
    proof -
      from that kx have ne: "k' \<noteq> k" by auto
      then show ?thesis unfolding c1 by (simp add: tk)
    qed
    have f: "filter (\<lambda>(k, v). \<forall>e \<in> set ?c1. k \<notin> el_classes e) xs =
             filter (\<lambda>(k, v). \<forall>e \<in> set ?c. k \<notin> el_classes e) xs"
    proof (rule filter_cong[OF refl])
      fix x assume x: "x \<in> set xs"
      obtain k' v' where kv: "x = (k', v')" by (cases x)
      from x have "fst x \<in> fst ` set xs" by (rule imageI)
      then have "k' \<in> fst ` set xs" by (simp only: kv fst_conv)
      from same[OF this]
      show "(case x of (k, v) \<Rightarrow> \<forall>e \<in> set ?c1. k \<notin> el_classes e) =
            (case x of (k, v) \<Rightarrow> \<forall>e \<in> set ?c. k \<notin> el_classes e)"
        by (simp only: kv prod.case)
    qed
    have m: "?R xs e = ?R ((k, v) # xs) e" if e: "e \<in> set ?c" for e
      using False e by (cases "el_postId e = k") (simp_all add: mk)
    have mt: "?R xs (addClass k (new_Post cls k v)) = addClass k (new_Post cls k v)"
      by (simp add: mk new_Post_def addClass_def)
    have mm: "map (?R xs) ?c1 = map (?R ((k, v) # xs)) ?c @ [addClass k (new_Post cls k v)]"
      unfolding c1 map_append list.map mt
      by (rule arg_cong[where f = "\<lambda>xs. xs @ _"], rule map_cong[OF refl]) (use m in simp)
    have ff: "filter (\<lambda>(k, v). \<forall>e \<in> set ?c. k \<notin> el_classes e) ((k, v) # xs) =
              (k, v) # filter (\<lambda>(k, v). \<forall>e \<in> set ?c. k \<notin> el_classes e) xs"
      using False by simp
    have "feedImageContainer (fold (addPosts_step cls) (a # xs) s) =
            feedImageContainer (fold (addPosts_step cls) xs ?s1)"
      by (simp add: a)
    also have "\<dots> = map (?R ((k, v) # xs)) ?c @
                     map ?T (filter (\<lambda>(k, v). \<forall>e \<in> set ?c. k \<notin> el_classes e) ((k, v) # xs))"
      unfolding ih f mm ff by simp
    finally show ?thesis unfolding a .
  qed
qed

lemma map_of_rev_distinct:
  "distinct (map fst xs) \<Longrightarrow> map_of (rev xs) = map_of xs"
proof -
  assume d: "distinct (map fst xs)"
  then have d': "distinct (map fst (rev xs))" by (simp add: rev_map[symmetric])
  have "set (rev xs) = set xs" by simp
  with map_of_inject_set[OF d' d] show ?thesis by simp
qed

text \<open>
  C8, as the code has it. For a page with distinct ids, on a display each of whose
  elements carries at most the class \<^verbatim>\<open>fp-post-\<close> of its own post, \<open>addPosts\<close> goes through
  the entries from the last key to the first (newest to oldest). An entry whose id is the
  class of displayed elements replaces each of them, in place, by a new element for the
  entry, and nothing is appended for it; every other entry is appended, marked with the
  class of its id, below what is displayed, the newest of them first and the oldest last.
  The displayed ids are therefore those displayed before, in their places, followed by
  the ids of the page that marked no element, newest first. The display again has each
  element carry at most the class of its own post. (The constructor of \<^verbatim>\<open>Post\<close> is taken
  to put on an element no \<^verbatim>\<open>fp-post-\<close> class of another id; whether it puts the class of
  the element's own id decides whether a replacing element is found by a later page.)
\<close>

theorem addPosts_order:
  assumes own: "\<forall>k. cls k \<subseteq> {k}"
    and dist: "distinct (map fst posts)"
    and wf: "\<forall>e \<in> set (feedImageContainer s). el_classes e \<subseteq> {el_postId e}"
  shows "feedImageContainer (addPosts cls posts s) =
           map (\<lambda>e. case map_of posts (el_postId e) of
                      Some v \<Rightarrow> if el_postId e \<in> el_classes e
                                then new_Post cls (el_postId e) v else e
                    | None \<Rightarrow> e)
               (feedImageContainer s) @
           map (\<lambda>(k, v). addClass k (new_Post cls k v))
               (filter (\<lambda>(k, v). \<forall>e \<in> set (feedImageContainer s). k \<notin> el_classes e)
                  (rev posts)) \<and>
         map el_postId (feedImageContainer (addPosts cls posts s)) =
           map el_postId (feedImageContainer s) @
           filter (\<lambda>k. \<forall>e \<in> set (feedImageContainer s). k \<notin> el_classes e)
             (rev (map fst posts)) \<and>
         (\<forall>e \<in> set (feedImageContainer (addPosts cls posts s)).
            el_classes e \<subseteq> {el_postId e})"
proof -
  let ?c = "feedImageContainer s"
  let ?R = "\<lambda>e. case map_of posts (el_postId e) of
                      Some v \<Rightarrow> if el_postId e \<in> el_classes e
                                then new_Post cls (el_postId e) v else e
                    | None \<Rightarrow> e"
  let ?T = "\<lambda>(k, v). addClass k (new_Post cls k v)"
  let ?P = "\<lambda>k. \<forall>e \<in> set ?c. k \<notin> el_classes e"
  have d: "distinct (map fst (rev posts))" using dist by (simp add: rev_map[symmetric])
  have one: "feedImageContainer (addPosts cls posts s) =
               map ?R ?c @ map ?T (filter (\<lambda>(k, v). ?P k) (rev posts))"
    unfolding addPosts_def addPosts_fold_container[OF own d wf] map_of_rev_distinct[OF dist] ..
  have r: "el_postId (?R e) = el_postId e" for e
    by (simp add: new_Post_def split: option.splits)
  have t: "el_postId (?T x) = fst x" for x
    by (cases x) (simp add: new_Post_def addClass_def)
  have p: "(\<lambda>(k, v). ?P k) = ?P \<circ> fst"
    by (rule ext) (simp add: split_def)
  have i1: "map el_postId (map ?R ?c) = map el_postId ?c"
    unfolding map_map by (rule map_cong[OF refl]) (simp only: o_apply r)
  have i2: "map el_postId (map ?T xs) = map fst xs" for xs :: "('a \<times> 'b) list"
    unfolding map_map by (rule map_cong[OF refl]) (simp only: o_apply t)
  have i3: "map fst (filter (\<lambda>(k, v). ?P k) (rev posts)) = filter ?P (rev (map fst posts))"
    unfolding p by (simp only: filter_map rev_map)
  have two: "map el_postId (feedImageContainer (addPosts cls posts s)) =
               map el_postId ?c @ filter ?P (rev (map fst posts))"
    unfolding one map_append i1 i2 i3 ..
  have three: "\<forall>e \<in> set (feedImageContainer (addPosts cls posts s)).
                 el_classes e \<subseteq> {el_postId e}"
    unfolding addPosts_def by (rule addPosts_fold_wf[OF own wf])
  from one two three show ?thesis by (intro conjI)
qed

theorem addPosts_order_witness:
  "(\<forall>k. ex_cls k \<subseteq> {k}) \<and>
   distinct (map fst [(1::nat, ''a''), (2, ''b''), (9, ''n'')]) \<and>
   list_all (\<lambda>e. el_classes e \<subseteq> {el_postId e}) (feedImageContainer ex_view) \<and>
   feedImageContainer (addPosts ex_cls [(1, ''a''), (2, ''b''), (9, ''n'')] ex_view) =
     [\<lparr>el_classes = {}, el_postId = 9, el_data = ''n''\<rparr>,
      \<lparr>el_classes = {2}, el_postId = 2, el_data = ''b''\<rparr>,
      \<lparr>el_classes = {1}, el_postId = 1, el_data = ''a''\<rparr>] \<and>
   map el_postId (feedImageContainer (addPosts ex_cls [(1, ''a''), (2, ''b''), (9, ''n'')] ex_view)) =
     [9, 2, 1]"
proof -
  have own: "\<forall>k. ex_cls k \<subseteq> {k}" by (simp add: ex_cls_def)
  have dist: "distinct (map fst [(1::nat, ''a''), (2, ''b''), (9, ''n'')])" by simp
  have wfl: "list_all (\<lambda>e. el_classes e \<subseteq> {el_postId e}) (feedImageContainer ex_view)"
    by (simp add: ex_view_def)
  then have wf: "\<forall>e \<in> set (feedImageContainer ex_view). el_classes e \<subseteq> {el_postId e}"
    by (simp only: list_all_iff)
  let ?page = "[(1::nat, ''a''), (2, ''b''), (9, ''n'')]"
  note th = addPosts_order[where cls = ex_cls and posts = ?page and s = ex_view, OF own dist wf]
  from th have e1: "feedImageContainer (addPosts ex_cls ?page ex_view) =
           map (\<lambda>e. case map_of ?page (el_postId e) of
                      Some v \<Rightarrow> if el_postId e \<in> el_classes e
                                then new_Post ex_cls (el_postId e) v else e
                    | None \<Rightarrow> e)
               (feedImageContainer ex_view) @
           map (\<lambda>(k, v). addClass k (new_Post ex_cls k v))
               (filter (\<lambda>(k, v). \<forall>e \<in> set (feedImageContainer ex_view). k \<notin> el_classes e)
                  (rev ?page))"
    by (rule conjunct1)
  have r1: "map (\<lambda>e. case map_of ?page (el_postId e) of
                      Some v \<Rightarrow> if el_postId e \<in> el_classes e
                                then new_Post ex_cls (el_postId e) v else e
                    | None \<Rightarrow> e)
               (feedImageContainer ex_view) @
           map (\<lambda>(k, v). addClass k (new_Post ex_cls k v))
               (filter (\<lambda>(k, v). \<forall>e \<in> set (feedImageContainer ex_view). k \<notin> el_classes e)
                  (rev ?page)) =
     [\<lparr>el_classes = {}, el_postId = 9, el_data = ''n''\<rparr>,
      \<lparr>el_classes = {2}, el_postId = 2, el_data = ''b''\<rparr>,
      \<lparr>el_classes = {1}, el_postId = 1, el_data = ''a''\<rparr>]"
    by (simp add: ex_view_def new_Post_def addClass_def ex_cls_def)
  from e1 r1 have res1: "feedImageContainer (addPosts ex_cls ?page ex_view) =
     [\<lparr>el_classes = {}, el_postId = 9, el_data = ''n''\<rparr>,
      \<lparr>el_classes = {2}, el_postId = 2, el_data = ''b''\<rparr>,
      \<lparr>el_classes = {1}, el_postId = 1, el_data = ''a''\<rparr>]"
    by (rule trans)
  then have res2: "map el_postId (feedImageContainer (addPosts ex_cls ?page ex_view)) = [9, 2, 1]"
    by simp
  from own dist wfl res1 res2 show ?thesis by (intro conjI)
qed

text \<open>
  The claim C8 says the entries are prepended, oldest to newest, the oldest of the page
  ending topmost. A feed displaying post 9 receives the page of the posts 1 and 2: the
  page stands below post 9, and the newest entry 2 above the oldest 1.
\<close>

theorem addPosts_newest_first:
  "map el_postId (feedImageContainer (addPosts ex_cls [(1, ''a''), (2, ''b'')] ex_view)) = [9, 2, 1]"
  by (simp add: addPosts_def addPosts_step_def ex_view_def ex_cls_def new_Post_def addClass_def Let_def)

section \<open>What a subscription delivers\<close>

text \<open>
  C10. Without \<open>latestEntryId\<close> the listener of \<open>subscribeToFeed\<close> hands every entry of
  the feed present at the call to the callback, once each, and every entry inserted
  later. With \<open>latestEntryId = s\<close> the listener's query ranges over the keys from \<open>s\<close> on,
  and the callback is called for exactly those above \<open>s\<close>: of the entries present, and of
  an entry inserted later, the one with key \<open>s\<close> is the only one in range that is
  withheld.
\<close>

theorem subscribe_delivery:
  "map fst (delivered_initially (subscribeToFeed uri None fd) db) = map fst (db uri) \<and>
   map fst (feedRef (subscribeToFeed uri (Some s) fd) (db uri)) = filter (\<lambda>k. s \<le> k) (map fst (db uri)) \<and>
   map fst (delivered_initially (subscribeToFeed uri (Some s) fd) db) =
     filter (\<lambda>k. s < k) (map fst (db uri)) \<and>
   map fst (delivered_on_insert (subscribeToFeed uri None fd) db (k, v)) = [k] \<and>
   map fst (delivered_on_insert (subscribeToFeed uri (Some s) fd) db (k, v)) =
     (if s < k then [k] else [])"
proof -
  have a: "map fst (concat (map (on_child_added (subscribeToFeed uri None fd) db) xs)) = map fst xs" for xs
    by (induction xs) (auto simp: on_child_added_def subscribeToFeed_def)
  have b: "map fst (concat (map (on_child_added (subscribeToFeed uri (Some s) fd) db) (startAt s xs))) =
           filter (\<lambda>k. s < k) (map fst xs)" for xs
    by (induction xs) (auto simp: on_child_added_def subscribeToFeed_def startAt_def)
  have c: "map fst (startAt s xs) = filter (\<lambda>k. s \<le> k) (map fst xs)" for xs :: "('a \<times> ('a, 'b) jval) list"
    by (induction xs) (auto simp: startAt_def)
  show ?thesis
    using a[of "db uri"] b[of "db uri"] c[of "db uri"]
    by (auto simp: delivered_initially_def delivered_on_insert_def feedRef_def subscribeToFeed_def
        on_child_added_def startAt_def)
qed

end
